theory Spec2Isabelle
  imports Complex_Main "HOL-Library.Word" "HOL-Library.Multiset"
begin

unbundle bit_operations_syntax

section \<open>Data model of \<^verbatim>\<open>src/libutil/upstream.c\<close>\<close>

text \<open>
  Conventions of the embedding.
  \<^item> \<^verbatim>\<open>guint\<close> counters are \<open>32 word\<close>, \<^verbatim>\<open>guint64\<close> is \<open>64 word\<close>: arithmetic wraps and
    \<open><\<close> is the unsigned comparison. Array lengths and array indices are \<open>nat\<close>.
  \<^item> \<^verbatim>\<open>gdouble\<close> values (times, limits) are \<open>real\<close>: rounding is not modelled. Where the C
    divides by a \<^verbatim>\<open>gdouble\<close> that may be zero, the IEEE result is written out.
  \<^item> A pointer to an upstream is its position in the list's \<^verbatim>\<open>ups\<close> array (every upstream
    is allocated once, by the add routine, and appended there); \<^verbatim>\<open>alive\<close> is an array of
    such pointers.
  \<^item> Reads outside an array, a failed \<^verbatim>\<open>g_assert\<close> and a division by zero are values of
    type \<open>fault\<close>.
\<close>

type_synonym guint = "32 word"
type_synonym guint64 = "64 word"

datatype fault = OutOfBounds | DivByZero | AssertFailed | NullDeref

datatype sa_family = AF_UNIX | AF_INET | AF_INET6

record rspamd_inet_addr_t =
  af :: sa_family
  payload :: "nat list"
  port :: nat

record upstream_addr_elt =
  addr :: rspamd_inet_addr_t
  addr_errors :: guint

datatype ev_callback = lazy_resolve_cb | revive_cb

record ev_timer =
  cb :: "ev_callback option"
  active :: bool

datatype rspamd_upstreams_watch_event =
  RSPAMD_UPSTREAM_WATCH_SUCCESS
  | RSPAMD_UPSTREAM_WATCH_FAILURE
  | RSPAMD_UPSTREAM_WATCH_OFFLINE
  | RSPAMD_UPSTREAM_WATCH_ONLINE

datatype rspamd_upstream_rotation =
  RSPAMD_UPSTREAM_RANDOM
  | RSPAMD_UPSTREAM_HASHED
  | RSPAMD_UPSTREAM_ROUND_ROBIN
  | RSPAMD_UPSTREAM_MASTER_SLAVE
  | RSPAMD_UPSTREAM_SEQUENTIAL
  | RSPAMD_UPSTREAM_UNDEF

text \<open>
  \<^verbatim>\<open>struct upstream\<close>. \<open>ctx\<close> says whether \<^verbatim>\<open>up->ctx\<close> is non-NULL (it then points to the
  list's context); \<open>noresolve\<close> is the bit \<^verbatim>\<open>RSPAMD_UPSTREAM_FLAG_NORESOLVE\<close> of \<^verbatim>\<open>flags\<close>;
  \<open>addrs_addr\<close> is \<open>None\<close> while \<^verbatim>\<open>addrs.addr\<close> is NULL; \<open>refcount\<close> is \<^verbatim>\<open>ref.refcount\<close>.
\<close>

record upstream =
  weight :: guint
  cur_weight :: guint
  errors :: guint
  checked :: guint
  dns_requests :: guint
  active_idx :: int
  name :: string
  ev :: ev_timer
  last_fail :: real
  noresolve :: bool
  ctx :: bool
  addrs_addr :: "upstream_addr_elt list option"
  addrs_cur :: nat
  new_addrs :: "rspamd_inet_addr_t list"
  refcount :: nat

record upstream_limits =
  revive_time :: real
  revive_jitter :: real
  error_time :: real
  dns_timeout :: real
  lazy_resolve_time :: real
  max_errors :: guint
  dns_retransmits :: guint

text \<open>
  \<^verbatim>\<open>struct upstream_ctx\<close>. \<open>res\<close> and \<open>event_loop\<close> say whether the handle is non-NULL.
  \<open>rdns_ok\<close> is the answer of the resolver library to \<^verbatim>\<open>rdns_make_request_full\<close> (a request
  object or NULL), which this file only tests.
\<close>

record upstream_ctx =
  res :: bool
  event_loop :: bool
  ctx_limits :: upstream_limits
  configured :: bool
  rdns_ok :: bool

text \<open>
  A call of a watcher's \<^verbatim>\<open>func (upstream, event, count, ud)\<close>: the position of the watcher
  in the list's \<^verbatim>\<open>watchers\<close>, the upstream, the event and the count.
\<close>

type_synonym watcher_call = "nat \<times> nat \<times> rspamd_upstreams_watch_event \<times> guint"

text \<open>
  \<^verbatim>\<open>struct upstream_list\<close>, together with the context object its \<^verbatim>\<open>ctx\<close> points to
  (\<open>ups_ctx\<close>, \<open>None\<close> for NULL) and the trace of the watcher calls made so far (\<open>calls\<close>).
  A watcher is represented by its \<^verbatim>\<open>events_mask\<close>; \<open>flags_noresolve\<close> is the bit
  \<^verbatim>\<open>RSPAMD_UPSTREAM_FLAG_NORESOLVE\<close> of the list's \<^verbatim>\<open>flags\<close>.
\<close>

record upstream_list =
  ups_ctx :: "upstream_ctx option"
  ups :: "upstream list"
  alive :: "nat list"
  watchers :: "rspamd_upstreams_watch_event set list"
  hash_seed :: guint64
  limits :: upstream_limits
  cur_elt :: nat
  rot_alg :: rspamd_upstream_rotation
  flags_noresolve :: bool
  calls :: "watcher_call list"

text \<open>The fields of \<^verbatim>\<open>struct rspamd_config\<close> that the library-config routine reads.\<close>

record rspamd_config =
  upstream_error_time :: real
  upstream_max_errors :: guint
  upstream_revive_time :: real
  upstream_lazy_resolve_time :: real
  cfg_dns_retransmits :: guint
  cfg_dns_timeout :: real

section \<open>Addresses\<close>

text \<open>
  Modelled from the spec: the inet-address library (\<^verbatim>\<open>rspamd_inet_address_get_port\<close>,
  \<^verbatim>\<open>_set_port\<close>, \<^verbatim>\<open>_get_af\<close>, \<^verbatim>\<open>_compare\<close>) is an external collaborator: get/set port, get
  family, and compare with or without the port (0 for equal addresses).
\<close>

definition rspamd_inet_address_get_port :: "rspamd_inet_addr_t \<Rightarrow> nat" where
  "rspamd_inet_address_get_port a = port a"

definition rspamd_inet_address_set_port :: "rspamd_inet_addr_t \<Rightarrow> nat \<Rightarrow> rspamd_inet_addr_t" where
  "rspamd_inet_address_set_port a p = a\<lparr>port := p\<rparr>"

definition rspamd_inet_address_get_af :: "rspamd_inet_addr_t \<Rightarrow> sa_family" where
  "rspamd_inet_address_get_af a = af a"

definition rspamd_inet_address_compare ::
  "rspamd_inet_addr_t \<Rightarrow> rspamd_inet_addr_t \<Rightarrow> bool \<Rightarrow> int" where
  "rspamd_inet_address_compare a1 a2 compare_ports =
     (if af a1 = af a2 \<and> payload a1 = payload a2 \<and> (compare_ports \<longrightarrow> port a1 = port a2)
      then 0 else 1)"

definition rspamd_upstream_af_to_weight :: "rspamd_inet_addr_t \<Rightarrow> int" where
  "rspamd_upstream_af_to_weight a =
     (case rspamd_inet_address_get_af a of AF_UNIX \<Rightarrow> 2 | AF_INET \<Rightarrow> 1 | _ \<Rightarrow> 0)"

definition rspamd_upstream_addr_sort_func :: "upstream_addr_elt \<Rightarrow> upstream_addr_elt \<Rightarrow> int" where
  "rspamd_upstream_addr_sort_func ip1 ip2 =
     (let w1 = rspamd_upstream_af_to_weight (addr ip1);
          w2 = rspamd_upstream_af_to_weight (addr ip2)
      in w2 - w1)"

text \<open>
  \<^verbatim>\<open>g_ptr_array_sort\<close> is GLib's, not part of this repository: it is taken as a stable
  sort by the comparison function (an element goes before the first one it does not
  compare greater than).
\<close>

fun g_ptr_array_insert_sorted :: "('a \<Rightarrow> 'a \<Rightarrow> int) \<Rightarrow> 'a \<Rightarrow> 'a list \<Rightarrow> 'a list" where
  "g_ptr_array_insert_sorted cmp x [] = [x]"
| "g_ptr_array_insert_sorted cmp x (y # ys) =
     (if cmp x y \<le> 0 then x # y # ys else y # g_ptr_array_insert_sorted cmp x ys)"

definition g_ptr_array_sort :: "('a \<Rightarrow> 'a \<Rightarrow> int) \<Rightarrow> 'a list \<Rightarrow> 'a list" where
  "g_ptr_array_sort cmp xs = foldr (g_ptr_array_insert_sorted cmp) xs []"

subsection \<open>Address reconciliation: \<^verbatim>\<open>rspamd_upstream_update_addrs\<close>\<close>

text \<open>
  The body of the \<^verbatim>\<open>LL_FOREACH\<close> loop for one staged address \<open>cur\<close>: set its port, search
  the current array for the first element that compares equal without the port, and
  build the new element.
\<close>

definition update_addrs_elt ::
  "upstream_addr_elt list \<Rightarrow> nat \<Rightarrow> bool \<Rightarrow> rspamd_inet_addr_t \<Rightarrow> upstream_addr_elt" where
  "update_addrs_elt old prt reset_errors cur =
     (let cur' = rspamd_inet_address_set_port cur prt
      in case find (\<lambda>addr_elt. rspamd_inet_address_compare (addr addr_elt) cur' False = 0) old of
           Some addr_elt \<Rightarrow>
             \<lparr>addr = cur', addr_errors = (if reset_errors then 0 else addr_errors addr_elt)\<rparr>
         | None \<Rightarrow> \<lparr>addr = cur', addr_errors = 0\<rparr>)"

text \<open>
  \<open>reset_errors\<close> is the outcome of \<^verbatim>\<open>rspamd_random_double_fast () > 0.9\<close>. The staged list
  \<open>new_addrs\<close> is read from its head.
\<close>

definition rspamd_upstream_update_addrs :: "bool \<Rightarrow> upstream \<Rightarrow> fault + upstream" where
  "rspamd_upstream_update_addrs reset_errors up =
     (case addrs_addr up of
        None \<Rightarrow> Inl NullDeref
      | Some old \<Rightarrow>
          (let up' =
                 (if length old > 0 \<and> new_addrs up \<noteq> [] then
                    let prt = rspamd_inet_address_get_port (addr (old ! 0));
                        new = map (update_addrs_elt old prt reset_errors) (new_addrs up)
                    in up\<lparr>addrs_cur := 0,
                          addrs_addr := Some (g_ptr_array_sort rspamd_upstream_addr_sort_func new)\<rparr>
                  else up)
           in Inr (up'\<lparr>new_addrs := []\<rparr>)))"

subsection \<open>Address rotation: \<^verbatim>\<open>rspamd_upstream_addr_next\<close>\<close>

text \<open>
  The \<^verbatim>\<open>do ... while\<close> loop on the array \<open>a\<close> and the cursor \<open>cur\<close>; \<open>n\<close> counts the
  iterations made so far (it is not a variable of the C). The result is the final
  cursor and the number of iterations.
\<close>

function addr_next_loop :: "upstream_addr_elt list \<Rightarrow> nat \<Rightarrow> nat \<Rightarrow> fault + (nat \<times> nat)" where
  "addr_next_loop a cur n =
     (if length a = 0 then Inl DivByZero
      else if length a \<le> cur then Inl OutOfBounds
      else
        let idx = cur;
            next_idx = (idx + 1) mod length a
        in if addr_errors (a ! next_idx) > addr_errors (a ! idx)
           then addr_next_loop a next_idx (Suc n)
           else Inr (next_idx, Suc n))"
  by pat_completeness auto
termination
proof (relation "measure (\<lambda>(a, cur, n). length (filter (\<lambda>e. addr_errors (a ! cur) < addr_errors e) a))",
    goal_cases)
  case 1
  show ?case by simp
next
  case (2 a cur n idx next_idx)
  let ?P = "\<lambda>e. addr_errors (a ! next_idx) < addr_errors e"
  let ?Q = "\<lambda>e. addr_errors (a ! cur) < addr_errors e"
  from 2 have lt: "addr_errors (a ! cur) < addr_errors (a ! next_idx)" by simp
  from 2 have "next_idx < length a" by simp
  then have mem: "a ! next_idx \<in> set (filter ?Q a)" using lt by simp
  have "filter ?P a = filter ?P (filter ?Q a)"
    using lt by (auto intro!: filter_cong)
  moreover have "length (filter ?P (filter ?Q a)) < length (filter ?Q a)"
    by (rule length_filter_less [OF mem]) simp
  ultimately show ?case by simp
qed

definition rspamd_upstream_addr_next :: "upstream \<Rightarrow> fault + (rspamd_inet_addr_t \<times> upstream)" where
  "rspamd_upstream_addr_next up =
     (case addrs_addr up of
        None \<Rightarrow> Inl NullDeref
      | Some a \<Rightarrow>
          (case addr_next_loop a (addrs_cur up) 0 of
             Inl f \<Rightarrow> Inl f
           | Inr (c, n) \<Rightarrow> Inr (addr (a ! c), up\<lparr>addrs_cur := c\<rparr>)))"

section \<open>Consistent hashing: \<^verbatim>\<open>rspamd_consistent_hash\<close>\<close>

text \<open>
  The statement \<^verbatim>\<open>key *= 2862933555777941757ULL + 1;\<close> of the loop body, on the 64-bit key.
\<close>

definition consistent_hash_next_key :: "guint64 \<Rightarrow> guint64" where
  "consistent_hash_next_key key = key * (2862933555777941757 + 1)"

lemma drop_bit_33_bound: "unat (drop_bit 33 (k :: guint64)) < 2 ^ 31"
proof -
  have "unat k < 2 ^ 64" using unsigned_less [of k] by simp
  then have "unat k div 2 ^ 33 < 2 ^ 31" by simp
  then show ?thesis by (simp add: drop_bit_eq_div unat_div)
qed

lemma jump_grows: "d \<le> 2 ^ 31 \<Longrightarrow> 0 < d \<Longrightarrow> Suc j \<le> (Suc j * 2 ^ 31) div (d::nat)"
proof -
  assume d: "d \<le> 2 ^ 31" "0 < d"
  have "Suc j * d \<le> Suc j * 2 ^ 31" using d by (intro mult_le_mono2)
  then show ?thesis using d by (simp add: less_eq_div_iff_mult_less_eq)
qed

text \<open>
  The \<^verbatim>\<open>while (j < nbuckets)\<close> loop. \<open>b\<close> is the \<^verbatim>\<open>gint64 b\<close> (it starts at \<open>-1\<close>); \<open>j\<close> is the
  \<^verbatim>\<open>gint64 j\<close>, which starts at 0 and is never negative. The C computes
  \<^verbatim>\<open>(b + 1) * (double)(1ULL << 31) / (double)((key >> 33) + 1ULL)\<close> in doubles and
  truncates; numerator and denominator are exact in a double, and for fewer than
  \<open>2^22\<close> buckets the rounded quotient truncates to the integer quotient written here.
\<close>

function consistent_hash_loop :: "guint64 \<Rightarrow> nat \<Rightarrow> int \<Rightarrow> nat \<Rightarrow> int" where
  "consistent_hash_loop key nbuckets b j =
     (if j < nbuckets then
        let b' = int j;
            key' = consistent_hash_next_key key;
            j' = (nat (b' + 1) * 2 ^ 31) div (unat (drop_bit 33 key') + 1)
        in consistent_hash_loop key' nbuckets b' j'
      else b)"
  by pat_completeness auto
termination
proof (relation "measure (\<lambda>(key, nbuckets, b, j). nbuckets - j)", goal_cases)
  case 1
  show ?case by simp
next
  case (2 key nbuckets b j b' key' j')
  have "unat (drop_bit 33 key') + 1 \<le> 2 ^ 31"
    using drop_bit_33_bound [of key'] by simp
  then have "Suc j \<le> (Suc j * 2 ^ 31) div (unat (drop_bit 33 key') + 1)"
    by (intro jump_grows) simp_all
  with 2 show ?case by (simp add: nat_add_distrib)
qed

text \<open>\<^verbatim>\<open>return b\<close> converts the \<^verbatim>\<open>gint64\<close> to the \<^verbatim>\<open>guint32\<close> result.\<close>

definition rspamd_consistent_hash :: "guint64 \<Rightarrow> guint \<Rightarrow> guint" where
  "rspamd_consistent_hash key nbuckets =
     word_of_int (consistent_hash_loop key (unat nbuckets) (- 1) 0)"

text \<open>
  The jump hash as the specification words it, for comparison: the key is advanced by
  \<open>key \<leftarrow> key \<times> 2862933555777941757 + 1\<close>.
\<close>

definition spec_next_key :: "guint64 \<Rightarrow> guint64" where
  "spec_next_key key = key * 2862933555777941757 + 1"

function spec_consistent_hash_loop :: "guint64 \<Rightarrow> nat \<Rightarrow> int \<Rightarrow> nat \<Rightarrow> int" where
  "spec_consistent_hash_loop key nbuckets b j =
     (if j < nbuckets then
        let b' = int j;
            key' = spec_next_key key;
            j' = (nat (b' + 1) * 2 ^ 31) div (unat (drop_bit 33 key') + 1)
        in spec_consistent_hash_loop key' nbuckets b' j'
      else b)"
  by pat_completeness auto
termination
proof (relation "measure (\<lambda>(key, nbuckets, b, j). nbuckets - j)", goal_cases)
  case 1
  show ?case by simp
next
  case (2 key nbuckets b j b' key' j')
  have "unat (drop_bit 33 key') + 1 \<le> 2 ^ 31"
    using drop_bit_33_bound [of key'] by simp
  then have "Suc j \<le> (Suc j * 2 ^ 31) div (unat (drop_bit 33 key') + 1)"
    by (intro jump_grows) simp_all
  with 2 show ?case by (simp add: nat_add_distrib)
qed

definition spec_consistent_hash :: "guint64 \<Rightarrow> guint \<Rightarrow> guint" where
  "spec_consistent_hash key nbuckets =
     word_of_int (spec_consistent_hash_loop key (unat nbuckets) (- 1) 0)"

section \<open>The list engine\<close>

subsection \<open>Helpers of the embedding\<close>

text \<open>Assignment through an upstream pointer: \<^verbatim>\<open>p->field = ...\<close>.\<close>

definition upd :: "nat \<Rightarrow> (upstream \<Rightarrow> upstream) \<Rightarrow> upstream_list \<Rightarrow> upstream_list" where
  "upd p f ls = ls\<lparr>ups := (ups ls)[p := f (ups ls ! p)]\<rparr>"

text \<open>\<^verbatim>\<open>up->ctx\<close>: NULL, or the context of the list.\<close>

definition up_ctx :: "upstream_list \<Rightarrow> nat \<Rightarrow> upstream_ctx option" where
  "up_ctx ls p = (if ctx (ups ls ! p) then ups_ctx ls else None)"

text \<open>
  \<^verbatim>\<open>DL_FOREACH (watchers, w) if (w->events_mask & event) w->func (up, event, count, w->ud)\<close>:
  the calls are appended to the trace, in the order of the watchers.
\<close>

definition notify ::
  "nat \<Rightarrow> rspamd_upstreams_watch_event \<Rightarrow> guint \<Rightarrow> upstream_list \<Rightarrow> upstream_list" where
  "notify p event cnt ls =
     ls\<lparr>calls := calls ls @
        map (\<lambda>w. (w, p, event, cnt))
          (filter (\<lambda>w. event \<in> watchers ls ! w) [0..<length (watchers ls)])\<rparr>"

text \<open>
  libev: \<^verbatim>\<open>ev_can_stop\<close> reads whether the watcher is armed, \<^verbatim>\<open>ev_timer_stop\<close> disarms it,
  \<^verbatim>\<open>ev_timer_init\<close> sets the callback of a disarmed watcher, \<^verbatim>\<open>ev_timer_start\<close> arms it. The
  delay (a random jitter around a limit) is not kept.
\<close>

definition ev_can_stop :: "ev_timer \<Rightarrow> bool" where
  "ev_can_stop w = active w"

definition ev_timer_stop :: "ev_timer \<Rightarrow> ev_timer" where
  "ev_timer_stop w = w\<lparr>active := False\<rparr>"

definition ev_timer_init :: "ev_callback \<Rightarrow> ev_timer" where
  "ev_timer_init f = \<lparr>cb = Some f, active = False\<rparr>"

definition ev_timer_start :: "ev_timer \<Rightarrow> ev_timer" where
  "ev_timer_start w = w\<lparr>active := True\<rparr>"

text \<open>
  \<^verbatim>\<open>g_ptr_array_remove_index (array, index)\<close> with the \<^verbatim>\<open>gint\<close> index converted to \<^verbatim>\<open>guint\<close>:
  GLib refuses an index that is not below the length (a negative one becomes huge) and
  leaves the array as it is.
\<close>

definition g_ptr_array_remove_index :: "'a list \<Rightarrow> int \<Rightarrow> 'a list" where
  "g_ptr_array_remove_index xs i =
     (if 0 \<le> i \<and> nat i < length xs then take (nat i) xs @ drop (Suc (nat i)) xs else xs)"

subsection \<open>\<^verbatim>\<open>rspamd_upstream_set_active\<close>\<close>

definition rspamd_upstream_set_active :: "nat \<Rightarrow> upstream_list \<Rightarrow> upstream_list" where
  "rspamd_upstream_set_active p ls =
     (let ls1 = ls\<lparr>alive := alive ls @ [p]\<rparr>;
          ls2 = upd p (\<lambda>u. u\<lparr>active_idx := int (length (alive ls1)) - 1\<rparr>) ls1
      in case up_ctx ls2 p of
           None \<Rightarrow> ls2
         | Some c \<Rightarrow>
             if configured c \<and> \<not> noresolve (ups ls2 ! p)
             then upd p (\<lambda>u. u\<lparr>ev := ev_timer_start (ev_timer_init lazy_resolve_cb)\<rparr>) ls2
             else ls2)"

subsection \<open>\<^verbatim>\<open>rspamd_upstream_resolve_addrs\<close>\<close>

text \<open>One \<^verbatim>\<open>rdns_make_request_full\<close> and the bookkeeping when it returns a request.\<close>

definition resolve_request :: "upstream_ctx \<Rightarrow> upstream \<Rightarrow> upstream" where
  "resolve_request c up =
     (if rdns_ok c then up\<lparr>dns_requests := dns_requests up + 1, refcount := Suc (refcount up)\<rparr>
      else up)"

text \<open>\<open>c\<close> is the context \<^verbatim>\<open>up->ctx\<close>, which every caller has checked.\<close>

definition rspamd_upstream_resolve_addrs :: "upstream_ctx \<Rightarrow> upstream \<Rightarrow> upstream" where
  "rspamd_upstream_resolve_addrs c up =
     (if res c \<and> configured c \<and> dns_requests up = 0 \<and> \<not> noresolve up then
        if take 1 (name up) \<noteq> ''/'' then resolve_request c (resolve_request c up) else up
      else up)"

subsection \<open>\<^verbatim>\<open>rspamd_upstream_set_inactive\<close>\<close>

text \<open>The loop that rewrites \<^verbatim>\<open>active_idx\<close> of every element of \<^verbatim>\<open>alive\<close>.\<close>

definition update_indices :: "upstream_list \<Rightarrow> upstream_list" where
  "update_indices ls =
     fold (\<lambda>i l. upd (alive l ! i) (\<lambda>cur. cur\<lparr>active_idx := int i\<rparr>) l) [0..<length (alive ls)] ls"

definition rspamd_upstream_set_inactive :: "nat \<Rightarrow> upstream_list \<Rightarrow> upstream_list" where
  "rspamd_upstream_set_inactive p ls =
     (let ls1 = ls\<lparr>alive := g_ptr_array_remove_index (alive ls) (active_idx (ups ls ! p))\<rparr>;
          ls2 = upd p (\<lambda>u. u\<lparr>active_idx := - 1\<rparr>) ls1;
          ls3 = update_indices ls2;
          ls4 = (case up_ctx ls3 p of
                   None \<Rightarrow> ls3
                 | Some c \<Rightarrow>
                     upd p (\<lambda>u.
                       let u1 = rspamd_upstream_resolve_addrs c u;
                           u2 = u1\<lparr>refcount := Suc (refcount u1)\<rparr>;
                           w = ev_timer_init revive_cb
                       in u2\<lparr>ev := (if event_loop c \<and> configured c then ev_timer_start w else w)\<rparr>)
                       ls3)
      in notify p RSPAMD_UPSTREAM_WATCH_OFFLINE (errors (ups ls4 ! p)) ls4)"

subsection \<open>\<^verbatim>\<open>rspamd_upstream_fail\<close> and \<^verbatim>\<open>rspamd_upstream_ok\<close>\<close>

text \<open>
  \<^verbatim>\<open>error_rate > max_error_rate\<close> in the branch \<^verbatim>\<open>sec_cur > sec_last\<close>. With
  \<^verbatim>\<open>error_time = 0\<close> the C quotient \<^verbatim>\<open>max_errors / error_time\<close> is \<open>+inf\<close> or NaN and the
  comparison is false.
\<close>

definition error_rate_exceeded :: "guint \<Rightarrow> real \<Rightarrow> upstream_limits \<Rightarrow> bool" where
  "error_rate_exceeded errs elapsed lims =
     (if error_time lims = 0 then False
      else real (unat errs) / elapsed > real (unat (max_errors lims)) / error_time lims)"

text \<open>The final block of both routines works on \<^verbatim>\<open>addrs.addr[addrs.cur]\<close>.\<close>

definition cur_addr_elt_update ::
  "nat \<Rightarrow> (guint \<Rightarrow> guint) \<Rightarrow> upstream_list \<Rightarrow> fault + upstream_list" where
  "cur_addr_elt_update p f ls =
     (case addrs_addr (ups ls ! p) of
        None \<Rightarrow> Inr ls
      | Some a \<Rightarrow>
          let i = addrs_cur (ups ls ! p)
          in if i < length a
             then Inr (upd p (\<lambda>u. u\<lparr>addrs_addr :=
                        Some (a[i := (a ! i)\<lparr>addr_errors := f (addr_errors (a ! i))\<rparr>])\<rparr>) ls)
             else Inl OutOfBounds)"

text \<open>
  \<open>sec_cur\<close> is the value of \<^verbatim>\<open>rspamd_get_ticks (FALSE)\<close> at the call. \<open>fail_account\<close> is the
  \<^verbatim>\<open>if (up->errors == 0) ... else ...\<close> block of \<^verbatim>\<open>rspamd_upstream_fail\<close>, entered with
  \<open>c\<close> the non-NULL \<^verbatim>\<open>up->ctx\<close> and \<^verbatim>\<open>up->active_idx != -1\<close>.
\<close>

definition fail_account :: "upstream_ctx \<Rightarrow> real \<Rightarrow> nat \<Rightarrow> upstream_list \<Rightarrow> upstream_list" where
  "fail_account c sec_cur p ls =
     (if errors (ups ls ! p) = 0 then
        notify p RSPAMD_UPSTREAM_WATCH_FAILURE 1
          (upd p (\<lambda>u. u\<lparr>last_fail := sec_cur, errors := 1\<rparr>) ls)
      else
        let sec_last = last_fail (ups ls ! p)
        in if sec_cur \<ge> sec_last then
             let ls1 = upd p (\<lambda>u. u\<lparr>errors := errors u + 1\<rparr>) ls;
                 ls2 = notify p RSPAMD_UPSTREAM_WATCH_FAILURE (errors (ups ls1 ! p)) ls1;
                 exceeded =
                   (if sec_cur > sec_last
                    then error_rate_exceeded (errors (ups ls2 ! p)) (sec_cur - sec_last)
                           (limits ls2)
                    else (1::real) > 0)
             in if exceeded then
                  if length (ups ls2) > 1 then
                    rspamd_upstream_set_inactive p (upd p (\<lambda>u. u\<lparr>errors := 0\<rparr>) ls2)
                  else if sec_cur - sec_last > revive_time (limits ls2) then
                    upd p (\<lambda>u. rspamd_upstream_resolve_addrs c (u\<lparr>errors := 0\<rparr>)) ls2
                  else ls2
                else ls2
           else ls)"

definition rspamd_upstream_fail :: "real \<Rightarrow> nat \<Rightarrow> bool \<Rightarrow> upstream_list \<Rightarrow> fault + upstream_list" where
  "rspamd_upstream_fail sec_cur p addr_failure ls =
     (case up_ctx ls p of
        None \<Rightarrow> Inr ls
      | Some c \<Rightarrow>
          if active_idx (ups ls ! p) = - 1 then Inr ls
          else
            let ls' = fail_account c sec_cur p ls
            in if addr_failure then cur_addr_elt_update p (\<lambda>e. e + 1) ls' else Inr ls')"

definition rspamd_upstream_ok :: "nat \<Rightarrow> upstream_list \<Rightarrow> fault + upstream_list" where
  "rspamd_upstream_ok p ls =
     (if errors (ups ls ! p) > 0 \<and> active_idx (ups ls ! p) \<noteq> - 1 then
        (case cur_addr_elt_update p (\<lambda>e. 0) (upd p (\<lambda>u. u\<lparr>errors := 0\<rparr>) ls) of
           Inl f \<Rightarrow> Inl f
         | Inr ls1 \<Rightarrow> Inr (notify p RSPAMD_UPSTREAM_WATCH_SUCCESS 0 ls1))
      else Inr ls)"

subsection \<open>Timer callbacks and mass restore\<close>

text \<open>
  \<^verbatim>\<open>REF_RELEASE\<close> after \<^verbatim>\<open>g_assert (refcount > 1)\<close>: the count stays positive, so the destructor
  does not run.
\<close>

definition assert_release :: "nat \<Rightarrow> upstream_list \<Rightarrow> fault + upstream_list" where
  "assert_release p ls =
     (if refcount (ups ls ! p) > 1 then Inr (upd p (\<lambda>u. u\<lparr>refcount := refcount u - 1\<rparr>) ls)
      else Inl AssertFailed)"

text \<open>\<^verbatim>\<open>rspamd_upstream_revive_cb\<close>, for an upstream whose list exists (\<^verbatim>\<open>upstream->ls\<close> is set).\<close>

definition rspamd_upstream_revive_cb :: "nat \<Rightarrow> upstream_list \<Rightarrow> fault + upstream_list" where
  "rspamd_upstream_revive_cb p ls =
     (let ls1 = upd p (\<lambda>u. u\<lparr>ev := ev_timer_stop (ev u)\<rparr>) ls;
          ls2 = rspamd_upstream_set_active p ls1
      in assert_release p ls2)"

definition rspamd_upstream_restore_cb :: "nat \<Rightarrow> upstream_list \<Rightarrow> fault + upstream_list" where
  "rspamd_upstream_restore_cb p ls =
     (let ls1 = upd p (\<lambda>u. if ev_can_stop (ev u) then u\<lparr>ev := ev_timer_stop (ev u)\<rparr> else u) ls;
          ls2 = ls1\<lparr>alive := alive ls1 @ [p]\<rparr>;
          ls3 = upd p (\<lambda>u. u\<lparr>active_idx := int (length (alive ls2)) - 1\<rparr>) ls2;
          ls4 = notify p RSPAMD_UPSTREAM_WATCH_ONLINE (errors (ups ls3 ! p)) ls3
      in assert_release p ls4)"

text \<open>\<^verbatim>\<open>g_ptr_array_foreach\<close> over an array of upstream pointers, stopping at a fault.\<close>

fun g_ptr_array_foreach ::
  "(nat \<Rightarrow> upstream_list \<Rightarrow> fault + upstream_list) \<Rightarrow> nat list \<Rightarrow> upstream_list \<Rightarrow>
   fault + upstream_list" where
  "g_ptr_array_foreach f [] ls = Inr ls"
| "g_ptr_array_foreach f (p # ps) ls =
     (case f p ls of Inl e \<Rightarrow> Inl e | Inr ls' \<Rightarrow> g_ptr_array_foreach f ps ls')"

subsection \<open>Selection\<close>

text \<open>
  The RNG is an external collaborator (\<^verbatim>\<open>ottery_rand_range\<close> of libottery), taken as a
  parameter: \<open>rnd\<close> is the entropy drawn and the result is some value of \<open>0..upper\<close>, each
  of which can occur. A generator that never returns \<open>upper\<close> itself yields a subset of
  these values.
\<close>

definition ottery_rand_range :: "guint \<Rightarrow> nat \<Rightarrow> nat" where
  "ottery_rand_range upper rnd = rnd mod (unat upper + 1)"

definition rspamd_upstream_get_random :: "nat \<Rightarrow> upstream_list \<Rightarrow> fault + nat" where
  "rspamd_upstream_get_random rnd ls =
     (let idx = ottery_rand_range (word_of_nat (length (alive ls)) - 1) rnd
      in if idx < length (alive ls) then Inr (alive ls ! idx) else Inl OutOfBounds)"

text \<open>
  The first loop of \<^verbatim>\<open>rspamd_upstream_get_round_robin\<close> over \<^verbatim>\<open>alive\<close>, on the variables
  \<open>(max_weight, selected, min_checked, min_checked_sel)\<close>.
\<close>

fun round_robin_scan ::
  "bool \<Rightarrow> upstream list \<Rightarrow> nat list \<Rightarrow> guint \<times> nat option \<times> guint \<times> nat option \<Rightarrow>
   guint \<times> nat option \<times> guint \<times> nat option" where
  "round_robin_scan use_cur us [] acc = acc"
| "round_robin_scan use_cur us (p # ps) (max_weight, selected, min_checked, min_checked_sel) =
     (let up = us ! p;
          w = (if use_cur then cur_weight up else weight up);
          (selected', max_weight') =
             (if w > max_weight then (Some p, w) else (selected, max_weight));
          (min_checked_sel', min_checked') =
             (if checked up * (errors up + 1) < min_checked then (Some p, checked up)
              else (min_checked_sel, min_checked))
      in round_robin_scan use_cur us ps (max_weight', selected', min_checked', min_checked_sel'))"

definition G_MAXUINT :: guint where
  "G_MAXUINT = 4294967295"

text \<open>The loop that resets \<^verbatim>\<open>checked\<close> of every element of \<^verbatim>\<open>alive\<close>.\<close>

definition reset_checked :: "upstream_list \<Rightarrow> upstream_list" where
  "reset_checked ls = fold (\<lambda>p l. upd p (\<lambda>up. up\<lparr>checked := 0\<rparr>) l) (alive ls) ls"

definition rspamd_upstream_get_round_robin ::
  "bool \<Rightarrow> upstream_list \<Rightarrow> nat option \<times> upstream_list" where
  "rspamd_upstream_get_round_robin use_cur ls =
     (let (max_weight, selected, min_checked, min_checked_sel) =
             round_robin_scan use_cur (ups ls) (alive ls) (0, None, G_MAXUINT, None);
          (selected1, ls1) =
             (if max_weight = 0
              then (min_checked_sel,
                    if min_checked > G_MAXUINT div 2 then reset_checked ls else ls)
              else (selected, ls));
          ls2 = (case selected1 of
                   Some p \<Rightarrow>
                     if use_cur then
                       upd p (\<lambda>u. if cur_weight u > 0 then u\<lparr>cur_weight := cur_weight u - 1\<rparr>
                                   else u\<lparr>cur_weight := weight u\<rparr>) ls1
                     else ls1
                 | None \<Rightarrow> ls1)
      in (selected1, ls2))"

text \<open>
  \<open>fast_hash\<close> stands for \<^verbatim>\<open>rspamd_cryptobox_fast_hash_specific (RSPAMD_CRYPTOBOX_XXHASH64, ...)\<close>
  of the cryptobox library: the key bytes and the seed give the 64-bit input key.
\<close>

definition rspamd_upstream_get_hashed ::
  "(nat list \<Rightarrow> guint64 \<Rightarrow> guint64) \<Rightarrow> nat list \<Rightarrow> upstream_list \<Rightarrow> fault + nat" where
  "rspamd_upstream_get_hashed fast_hash key ls =
     (let k = fast_hash key (hash_seed ls);
          idx = rspamd_consistent_hash k (word_of_nat (length (alive ls)))
      in if unat idx < length (alive ls) then Inr (alive ls ! unat idx) else Inl OutOfBounds)"

text \<open>The rotation that \<^verbatim>\<open>rspamd_upstream_get_common\<close> settles on.\<close>

definition get_rotation ::
  "upstream_list \<Rightarrow> rspamd_upstream_rotation \<Rightarrow> nat list option \<Rightarrow> bool \<Rightarrow>
   rspamd_upstream_rotation" where
  "get_rotation ls default_type key forced =
     (let type =
            (if \<not> forced
             then (if rot_alg ls \<noteq> RSPAMD_UPSTREAM_UNDEF then rot_alg ls else default_type)
             else (if default_type \<noteq> RSPAMD_UPSTREAM_UNDEF then default_type else rot_alg ls))
      in if type = RSPAMD_UPSTREAM_HASHED \<and> (key = Some [] \<or> key = None)
         then RSPAMD_UPSTREAM_RANDOM else type)"

text \<open>
  \<open>key\<close> is \<open>None\<close> for a NULL key, otherwise its bytes (\<^verbatim>\<open>keylen\<close> is their number). The
  result is the returned pointer (\<open>None\<close> for NULL) and the list. \<open>get_select\<close> is the
  \<^verbatim>\<open>switch (type)\<close> of \<^verbatim>\<open>rspamd_upstream_get_common\<close>; its Sequential case returns NULL
  directly when the cursor is past the end.
\<close>

definition get_select ::
  "(nat list \<Rightarrow> guint64 \<Rightarrow> guint64) \<Rightarrow> nat \<Rightarrow> nat list option \<Rightarrow> rspamd_upstream_rotation \<Rightarrow>
   upstream_list \<Rightarrow> fault + (nat option \<times> upstream_list)" where
  "get_select fast_hash rnd key type ls =
     (case type of
        RSPAMD_UPSTREAM_HASHED \<Rightarrow>
          (case rspamd_upstream_get_hashed fast_hash (case key of None \<Rightarrow> [] | Some k \<Rightarrow> k) ls of
             Inl f \<Rightarrow> Inl f | Inr up \<Rightarrow> Inr (Some up, ls))
      | RSPAMD_UPSTREAM_ROUND_ROBIN \<Rightarrow> Inr (rspamd_upstream_get_round_robin True ls)
      | RSPAMD_UPSTREAM_MASTER_SLAVE \<Rightarrow> Inr (rspamd_upstream_get_round_robin False ls)
      | RSPAMD_UPSTREAM_SEQUENTIAL \<Rightarrow>
          if cur_elt ls \<ge> length (alive ls) then Inr (None, ls\<lparr>cur_elt := 0\<rparr>)
          else Inr (Some (alive ls ! cur_elt ls), ls\<lparr>cur_elt := cur_elt ls + 1\<rparr>)
      | _ \<Rightarrow>
          (case rspamd_upstream_get_random rnd ls of
             Inl f \<Rightarrow> Inl f | Inr up \<Rightarrow> Inr (Some up, ls)))"

definition rspamd_upstream_get_common ::
  "(nat list \<Rightarrow> guint64 \<Rightarrow> guint64) \<Rightarrow> nat \<Rightarrow> rspamd_upstream_rotation \<Rightarrow> nat list option \<Rightarrow>
   bool \<Rightarrow> upstream_list \<Rightarrow> fault + (nat option \<times> upstream_list)" where
  "rspamd_upstream_get_common fast_hash rnd default_type key forced ls0 =
     (case (if length (alive ls0) = 0
            then g_ptr_array_foreach rspamd_upstream_restore_cb [0..<length (ups ls0)] ls0
            else Inr ls0) of
        Inl f \<Rightarrow> Inl f
      | Inr ls \<Rightarrow>
          (case get_select fast_hash rnd key (get_rotation ls default_type key forced) ls of
             Inl f \<Rightarrow> Inl f
           | Inr (None, ls') \<Rightarrow> Inr (None, ls')
           | Inr (Some up, ls') \<Rightarrow> Inr (Some up, upd up (\<lambda>u. u\<lparr>checked := checked u + 1\<rparr>) ls')))"

definition rspamd_upstream_get ::
  "(nat list \<Rightarrow> guint64 \<Rightarrow> guint64) \<Rightarrow> nat \<Rightarrow> rspamd_upstream_rotation \<Rightarrow> nat list option \<Rightarrow>
   upstream_list \<Rightarrow> fault + (nat option \<times> upstream_list)" where
  "rspamd_upstream_get fast_hash rnd default_type key ls =
     rspamd_upstream_get_common fast_hash rnd default_type key False ls"

definition rspamd_upstream_get_forced ::
  "(nat list \<Rightarrow> guint64 \<Rightarrow> guint64) \<Rightarrow> nat \<Rightarrow> rspamd_upstream_rotation \<Rightarrow> nat list option \<Rightarrow>
   upstream_list \<Rightarrow> fault + (nat option \<times> upstream_list)" where
  "rspamd_upstream_get_forced fast_hash rnd forced_type key ls =
     rspamd_upstream_get_common fast_hash rnd forced_type key True ls"

subsection \<open>\<^verbatim>\<open>rspamd_upstreams_library_config\<close>\<close>

text \<open>
  \<open>loop\<close> and \<open>resolver\<close> say whether the handles passed in are non-NULL. \<^verbatim>\<open>ctx->upstreams\<close>
  holds the upstreams whose \<^verbatim>\<open>ctx\<close> is this context.
\<close>

definition rspamd_upstreams_library_config ::
  "rspamd_config \<Rightarrow> bool \<Rightarrow> bool \<Rightarrow> upstream_list \<Rightarrow> fault + upstream_list" where
  "rspamd_upstreams_library_config cfg loop resolver ls =
     (case ups_ctx ls of
        None \<Rightarrow> Inl AssertFailed
      | Some c \<Rightarrow>
          (let l0 = ctx_limits c;
               l1 = (if upstream_error_time cfg \<noteq> 0
                     then l0\<lparr>error_time := upstream_error_time cfg\<rparr> else l0);
               l2 = (if upstream_max_errors cfg \<noteq> 0
                     then l1\<lparr>max_errors := upstream_max_errors cfg\<rparr> else l1);
               l3 = (if upstream_revive_time cfg \<noteq> 0
                     then l2\<lparr>revive_time := real (unat (upstream_max_errors cfg))\<rparr> else l2);
               l4 = (if upstream_lazy_resolve_time cfg \<noteq> 0
                     then l3\<lparr>lazy_resolve_time := upstream_lazy_resolve_time cfg\<rparr> else l3);
               l5 = (if cfg_dns_retransmits cfg \<noteq> 0
                     then l4\<lparr>dns_retransmits := cfg_dns_retransmits cfg\<rparr> else l4);
               l6 = (if cfg_dns_timeout cfg \<noteq> 0
                     then l5\<lparr>dns_timeout := cfg_dns_timeout cfg\<rparr> else l5);
               c' = c\<lparr>ctx_limits := l6, event_loop := loop, res := resolver, configured := True\<rparr>;
               ls1 = ls\<lparr>ups_ctx := Some c'\<rparr>
           in Inr (if loop \<and> resolver then
                     fold (\<lambda>p l.
                            let upstream = ups l ! p
                            in if ctx upstream \<and> \<not> ev_can_stop (ev upstream) \<and> \<not> noresolve upstream
                               then upd p (\<lambda>u. u\<lparr>ev := ev_timer_start (ev_timer_init lazy_resolve_cb)\<rparr>) l
                               else l)
                       [0..<length (ups ls1)] ls1
                   else ls1)))"

subsection \<open>\<^verbatim>\<open>rspamd_upstreams_add_upstream\<close>, after parsing\<close>

text \<open>\<^verbatim>\<open>rspamd_upstream_add_addr\<close>: append an element with no errors and sort.\<close>

definition rspamd_upstream_add_addr :: "upstream \<Rightarrow> rspamd_inet_addr_t \<Rightarrow> upstream" where
  "rspamd_upstream_add_addr up a =
     (let arr = (case addrs_addr up of None \<Rightarrow> [] | Some xs \<Rightarrow> xs)
      in up\<lparr>addrs_addr :=
            Some (g_ptr_array_sort rspamd_upstream_addr_sort_func
                    (arr @ [\<lparr>addr = a, addr_errors = 0\<rparr>]))\<rparr>)"

text \<open>The upstream that \<^verbatim>\<open>g_malloc0\<close> returns.\<close>

definition upstream_malloc0 :: upstream where
  "upstream_malloc0 =
     \<lparr>weight = 0, cur_weight = 0, errors = 0, checked = 0, dns_requests = 0, active_idx = 0,
      name = [], ev = \<lparr>cb = None, active = False\<rparr>, last_fail = 0, noresolve = False,
      ctx = False, addrs_addr = None, addrs_cur = 0, new_addrs = [], refcount = 0\<rparr>"

text \<open>
  The parsers (\<^verbatim>\<open>rspamd_parse_host_port_priority\<close>, \<^verbatim>\<open>rspamd_parse_inet_address\<close>) are not
  part of this file: the routine is given their successful outcome, the name, the
  weight, the addresses and whether the result is \<^verbatim>\<open>RSPAMD_PARSE_ADDR_NUMERIC\<close>. The new
  upstream is stored at the end of \<^verbatim>\<open>ups\<close>.
\<close>

definition rspamd_upstreams_add_upstream ::
  "string \<Rightarrow> guint \<Rightarrow> rspamd_inet_addr_t list \<Rightarrow> bool \<Rightarrow> upstream_list \<Rightarrow> upstream_list" where
  "rspamd_upstreams_add_upstream nm wgt addrs numeric ls =
     (let u0 = upstream_malloc0\<lparr>weight := wgt, name := nm\<rparr>;
          u1 = u0\<lparr>noresolve := (flags_noresolve ls \<or> numeric)\<rparr>;
          u2 = fold (\<lambda>a u. rspamd_upstream_add_addr u a) addrs u1;
          u3 = (if weight u2 = 0 \<and> rot_alg ls = RSPAMD_UPSTREAM_MASTER_SLAVE \<and> length (ups ls) = 0
                then u2\<lparr>weight := 1\<rparr> else u2);
          p = length (ups ls);
          u4 = u3\<lparr>cur_weight := weight u3, refcount := 1, ctx := (ups_ctx ls \<noteq> None)\<rparr>;
          u5 = u4\<lparr>addrs_addr := map_option (g_ptr_array_sort rspamd_upstream_addr_sort_func)
                                  (addrs_addr u4)\<rparr>
      in rspamd_upstream_set_active p (ls\<lparr>ups := ups ls @ [u5]\<rparr>))"

section \<open>Predicates of the properties\<close>

text \<open>
  Family preference of two address elements: the first has at least the weight of the
  second (UNIX 2, IPv4 1, others 0).
\<close>

definition family_order :: "upstream_addr_elt \<Rightarrow> upstream_addr_elt \<Rightarrow> bool" where
  "family_order x y \<longleftrightarrow>
     rspamd_upstream_af_to_weight (addr y) \<le> rspamd_upstream_af_to_weight (addr x)"

text \<open>\<open>n\<close> consecutive calls of a Get routine \<open>G\<close>: the returned pointers and the last list.\<close>

fun get_repeat ::
  "(upstream_list \<Rightarrow> fault + (nat option \<times> upstream_list)) \<Rightarrow> nat \<Rightarrow> upstream_list \<Rightarrow>
   fault + (nat option list \<times> upstream_list)" where
  "get_repeat G 0 ls = Inr ([], ls)"
| "get_repeat G (Suc n) ls =
     (case G ls of
        Inl f \<Rightarrow> Inl f
      | Inr (r, ls') \<Rightarrow>
          (case get_repeat G n ls' of
             Inl f \<Rightarrow> Inl f
           | Inr (rs, ls'') \<Rightarrow> Inr (r # rs, ls'')))"

text \<open>
  The index invariant of a list: every pointer \<open>u\<close> in \<^verbatim>\<open>alive\<close> designates an upstream of
  the list, and \<^verbatim>\<open>alive[u->active_idx] == u\<close>.
\<close>

definition alive_idx_inv :: "upstream_list \<Rightarrow> bool" where
  "alive_idx_inv ls \<longleftrightarrow>
     (\<forall>u\<in>set (alive ls).
        u < length (ups ls) \<and> 0 \<le> active_idx (ups ls ! u) \<and>
        nat (active_idx (ups ls ! u)) < length (alive ls) \<and>
        alive ls ! nat (active_idx (ups ls ! u)) = u)"

text \<open>
  The same invariant on the array \<open>al\<close> of alive pointers and the list \<open>ix\<close> of the
  \<^verbatim>\<open>active_idx\<close> fields, and the effect of the index-rewriting loop on \<open>ix\<close>.
\<close>

definition idx_ok :: "nat list \<Rightarrow> int list \<Rightarrow> bool" where
  "idx_ok al ix \<longleftrightarrow>
     (\<forall>u\<in>set al. u < length ix \<and> 0 \<le> ix ! u \<and> nat (ix ! u) < length al \<and> al ! nat (ix ! u) = u)"

definition reindex :: "nat list \<Rightarrow> nat \<Rightarrow> int list \<Rightarrow> int list" where
  "reindex al k ix = fold (\<lambda>i ix. ix[al ! i := int i]) [0..<k] ix"

text \<open>A sequence of Fail calls on the upstream \<open>p\<close>, each with its time and its flag.\<close>

fun fail_repeat :: "(real \<times> bool) list \<Rightarrow> nat \<Rightarrow> upstream_list \<Rightarrow> fault + upstream_list" where
  "fail_repeat [] p ls = Inr ls"
| "fail_repeat ((sec_cur, addr_failure) # fs) p ls =
     (case rspamd_upstream_fail sec_cur p addr_failure ls of
        Inl e \<Rightarrow> Inl e
      | Inr ls' \<Rightarrow> fail_repeat fs p ls')"

text \<open>The watcher calls of one event in the trace.\<close>

definition calls_of :: "rspamd_upstreams_watch_event \<Rightarrow> upstream_list \<Rightarrow> watcher_call list" where
  "calls_of event ls = filter (\<lambda>(w, u, e, n). e = event) (calls ls)"


text \<open>
  The weight that the round-robin scan reads (\<^verbatim>\<open>cur_weight\<close> under \<^verbatim>\<open>use_cur\<close>, else
  \<^verbatim>\<open>weight\<close>) and the \<^verbatim>\<open>guint\<close> product \<^verbatim>\<open>checked * (errors + 1)\<close> that it compares.
\<close>

definition scan_weight :: "bool \<Rightarrow> upstream \<Rightarrow> guint" where
  "scan_weight use_cur up = (if use_cur then cur_weight up else weight up)"

definition checked_score :: "upstream \<Rightarrow> guint" where
  "checked_score up = checked up * (errors up + 1)"


text \<open>
  The calls that \<^verbatim>\<open>rspamd_upstream_restore_cb\<close> makes for the upstream \<open>p\<close> with \<open>n\<close>
  errors: one for each watcher of the ONLINE event.
\<close>

definition online_calls ::
  "rspamd_upstreams_watch_event set list \<Rightarrow> nat \<Rightarrow> guint \<Rightarrow> watcher_call list" where
  "online_calls ws p n =
     map (\<lambda>w. (w, p, RSPAMD_UPSTREAM_WATCH_ONLINE, n))
       (filter (\<lambda>w. RSPAMD_UPSTREAM_WATCH_ONLINE \<in> ws ! w) [0..<length ws])"

text \<open>A Get result that is a pick, and one that is NULL.\<close>

definition is_pick :: "fault + (nat option \<times> upstream_list) \<Rightarrow> bool" where
  "is_pick r = (case r of Inr (Some p, ls') \<Rightarrow> p \<in> set (alive ls') | _ \<Rightarrow> False)"

definition is_none :: "fault + (nat option \<times> upstream_list) \<Rightarrow> bool" where
  "is_none r = (case r of Inr (None, ls') \<Rightarrow> True | _ \<Rightarrow> False)"

section \<open>Example states\<close>

definition example_limits :: upstream_limits where
  "example_limits =
     \<lparr>revive_time = 60, revive_jitter = 0.4, error_time = 10, dns_timeout = 1,
      lazy_resolve_time = 3600, max_errors = 4, dns_retransmits = 2\<rparr>"

definition example_ctx :: upstream_ctx where
  "example_ctx =
     \<lparr>res = True, event_loop = True, ctx_limits = example_limits, configured = True,
      rdns_ok = True\<rparr>"

definition example_cfg :: rspamd_config where
  "example_cfg =
     \<lparr>upstream_error_time = 0, upstream_max_errors = 7, upstream_revive_time = 30,
      upstream_lazy_resolve_time = 0, cfg_dns_retransmits = 0, cfg_dns_timeout = 0\<rparr>"

text \<open>The list that \<^verbatim>\<open>rspamd_upstreams_create\<close> returns for the example context.\<close>

definition empty_list :: upstream_list where
  "empty_list =
     \<lparr>ups_ctx = Some example_ctx, ups = [], alive = [], watchers = [],
      hash_seed = 0xa574de7df64e9b9d, limits = example_limits, cur_elt = 0,
      rot_alg = RSPAMD_UPSTREAM_UNDEF, flags_noresolve = False, calls = []\<rparr>"

definition example_addr :: "nat \<Rightarrow> rspamd_inet_addr_t" where
  "example_addr n = \<lparr>af = AF_INET, payload = [n, n, n, n], port = 25\<rparr>"

definition example_addrs :: "upstream_addr_elt list" where
  "example_addrs =
     [\<lparr>addr = example_addr 1, addr_errors = 0\<rparr>,
      \<lparr>addr = example_addr 2, addr_errors = 5\<rparr>,
      \<lparr>addr = example_addr 3, addr_errors = 0\<rparr>]"

definition example_upstream :: upstream where
  "example_upstream =
     upstream_malloc0\<lparr>name := ''mx.example.org'', refcount := 1,
       addrs_addr := Some example_addrs\<rparr>"

text \<open>
  An upstream with two addresses and three staged DNS answers (an IPv6 address, a known
  IPv4 address and a new one).
\<close>

definition example_old_addrs :: "upstream_addr_elt list" where
  "example_old_addrs =
     [\<lparr>addr = example_addr 1, addr_errors = 3\<rparr>, \<lparr>addr = example_addr 2, addr_errors = 2\<rparr>]"

definition example_staged :: "rspamd_inet_addr_t list" where
  "example_staged =
     [\<lparr>af = AF_INET6, payload = [0, 0, 0, 1], port = 0\<rparr>,
      \<lparr>af = AF_INET, payload = [2, 2, 2, 2], port = 0\<rparr>,
      \<lparr>af = AF_INET, payload = [3, 3, 3, 3], port = 0\<rparr>]"

definition example_resolved :: upstream where
  "example_resolved =
     example_upstream\<lparr>addrs_addr := Some example_old_addrs, addrs_cur := 1,
       new_addrs := example_staged\<rparr>"

text \<open>
  A list with one watcher for every event and the upstreams \<open>10.0.0.1\<close>, \<open>10.0.0.2\<close>
  (and \<open>10.0.0.3\<close>), as the add routine builds them from numeric addresses.
\<close>

definition watched_list :: upstream_list where
  "watched_list =
     empty_list\<lparr>watchers :=
       [{RSPAMD_UPSTREAM_WATCH_SUCCESS, RSPAMD_UPSTREAM_WATCH_FAILURE,
         RSPAMD_UPSTREAM_WATCH_OFFLINE, RSPAMD_UPSTREAM_WATCH_ONLINE}]\<rparr>"

definition numeric_upstream :: "string \<Rightarrow> nat \<Rightarrow> int \<Rightarrow> upstream" where
  "numeric_upstream nm n idx =
     \<lparr>weight = 0, cur_weight = 0, errors = 0, checked = 0, dns_requests = 0, active_idx = idx,
      name = nm, ev = \<lparr>cb = None, active = False\<rparr>, last_fail = 0, noresolve = True,
      ctx = True,
      addrs_addr =
        Some [\<lparr>addr = \<lparr>af = AF_INET, payload = [10, 0, 0, n], port = 80\<rparr>, addr_errors = 0\<rparr>],
      addrs_cur = 0, new_addrs = [], refcount = 1\<rparr>"

definition example_single :: upstream_list where
  "example_single = watched_list\<lparr>ups := [numeric_upstream ''10.0.0.1'' 1 0], alive := [0]\<rparr>"

definition example_pair :: upstream_list where
  "example_pair =
     watched_list\<lparr>ups := [numeric_upstream ''10.0.0.1'' 1 0, numeric_upstream ''10.0.0.2'' 2 1],
       alive := [0, 1]\<rparr>"

definition example_three :: upstream_list where
  "example_three =
     watched_list\<lparr>ups := [numeric_upstream ''10.0.0.1'' 1 0, numeric_upstream ''10.0.0.2'' 2 1,
                          numeric_upstream ''10.0.0.3'' 3 2],
       alive := [0, 1, 2]\<rparr>"

text \<open>
  The pair after a first failure of its first upstream at time 0, and the pair with
  both upstreams ejected (each waits for its revive timer, which holds a reference).
\<close>

definition example_failing :: upstream_list where
  "example_failing =
     example_pair\<lparr>ups := [(numeric_upstream ''10.0.0.1'' 1 0)\<lparr>errors := 1\<rparr>,
                          numeric_upstream ''10.0.0.2'' 2 1],
       calls := [(0, 0, RSPAMD_UPSTREAM_WATCH_FAILURE, 1)]\<rparr>"

definition ejected_upstream :: "string \<Rightarrow> nat \<Rightarrow> upstream" where
  "ejected_upstream nm n =
     (numeric_upstream nm n (- 1))\<lparr>ev := \<lparr>cb = Some revive_cb, active = True\<rparr>, refcount := 2\<rparr>"

definition example_all_ejected :: upstream_list where
  "example_all_ejected =
     example_pair\<lparr>ups := [ejected_upstream ''10.0.0.1'' 1, ejected_upstream ''10.0.0.2'' 2],
       alive := []\<rparr>"





text \<open>
  Both upstreams ejected on a list in Sequential rotation whose cursor had reached the
  end of \<^verbatim>\<open>alive\<close>.
\<close>

definition example_sequential_end :: upstream_list where
  "example_sequential_end =
     example_all_ejected\<lparr>cur_elt := 2, rot_alg := RSPAMD_UPSTREAM_SEQUENTIAL\<rparr>"

section \<open>Basic facts about the embedding\<close>

lemma upd_fields [simp]:
  "alive (upd p f ls) = alive ls"
  "cur_elt (upd p f ls) = cur_elt ls"
  "rot_alg (upd p f ls) = rot_alg ls"
  "limits (upd p f ls) = limits ls"
  "calls (upd p f ls) = calls ls"
  "watchers (upd p f ls) = watchers ls"
  "hash_seed (upd p f ls) = hash_seed ls"
  "flags_noresolve (upd p f ls) = flags_noresolve ls"
  "length (ups (upd p f ls)) = length (ups ls)"
  by (simp_all add: upd_def)

lemma upd_nth:
  "ups (upd p f ls) ! q = (if q = p \<and> p < length (ups ls) then f (ups ls ! p) else ups ls ! q)"
  by (cases "p < length (ups ls)") (simp_all add: upd_def nth_list_update list_update_beyond)

lemma get_rotation_cong:
  "rot_alg ls' = rot_alg ls \<Longrightarrow> get_rotation ls' d k f = get_rotation ls d k f"
  by (simp add: get_rotation_def)

lemma notify_fields [simp]:
  "alive (notify p e c ls) = alive ls"
  "ups (notify p e c ls) = ups ls"
  "cur_elt (notify p e c ls) = cur_elt ls"
  "rot_alg (notify p e c ls) = rot_alg ls"
  "limits (notify p e c ls) = limits ls"
  "ups_ctx (notify p e c ls) = ups_ctx ls"
  "watchers (notify p e c ls) = watchers ls"
  by (simp_all add: notify_def)

lemma resolve_request_fields [simp]:
  "active_idx (resolve_request c u) = active_idx u"
  "errors (resolve_request c u) = errors u"
  "ev (resolve_request c u) = ev u"
  "addrs_addr (resolve_request c u) = addrs_addr u"
  "addrs_cur (resolve_request c u) = addrs_cur u"
  "noresolve (resolve_request c u) = noresolve u"
  "ctx (resolve_request c u) = ctx u"
  "name (resolve_request c u) = name u"
  by (simp_all add: resolve_request_def)

lemma resolve_addrs_fields [simp]:
  "active_idx (rspamd_upstream_resolve_addrs c u) = active_idx u"
  "errors (rspamd_upstream_resolve_addrs c u) = errors u"
  "ev (rspamd_upstream_resolve_addrs c u) = ev u"
  "addrs_addr (rspamd_upstream_resolve_addrs c u) = addrs_addr u"
  "addrs_cur (rspamd_upstream_resolve_addrs c u) = addrs_cur u"
  "noresolve (rspamd_upstream_resolve_addrs c u) = noresolve u"
  "ctx (rspamd_upstream_resolve_addrs c u) = ctx u"
  by (simp_all add: rspamd_upstream_resolve_addrs_def)

text \<open>Unfolding sets for evaluating the routines on the example lists.\<close>

lemmas example_defs =
  example_pair_def example_single_def numeric_upstream_def watched_list_def empty_list_def
  example_ctx_def example_limits_def

lemmas engine_defs =
  rspamd_upstream_fail_def fail_account_def rspamd_upstream_set_inactive_def
  rspamd_upstream_set_active_def
  update_indices_def g_ptr_array_remove_index_def rspamd_upstream_resolve_addrs_def
  resolve_request_def error_rate_exceeded_def cur_addr_elt_update_def notify_def upd_def
  up_ctx_def ev_timer_start_def ev_timer_init_def ev_timer_stop_def ev_can_stop_def
  assert_release_def rspamd_upstream_revive_cb_def rspamd_upstream_restore_cb_def Let_def

lemmas select_defs =
  rspamd_upstream_get_def rspamd_upstream_get_forced_def rspamd_upstream_get_common_def
  get_select_def get_rotation_def rspamd_upstream_get_random_def ottery_rand_range_def

text \<open>The example lists are what the add routine builds.\<close>

lemmas add_upstream_eval =
  rspamd_upstreams_add_upstream_def rspamd_upstream_set_active_def rspamd_upstream_add_addr_def
  upstream_malloc0_def g_ptr_array_sort_def rspamd_upstream_addr_sort_func_def
  rspamd_upstream_af_to_weight_def rspamd_inet_address_get_af_def upd_def up_ctx_def
  ev_timer_start_def ev_timer_init_def
  watched_list_def empty_list_def example_ctx_def numeric_upstream_def Let_def

lemma example_single_built:
  "example_single =
     rspamd_upstreams_add_upstream ''10.0.0.1'' 0
       [\<lparr>af = AF_INET, payload = [10, 0, 0, 1], port = 80\<rparr>] True watched_list"
  by (simp add: example_single_def add_upstream_eval)

lemma example_pair_built:
  "example_pair =
     rspamd_upstreams_add_upstream ''10.0.0.2'' 0
       [\<lparr>af = AF_INET, payload = [10, 0, 0, 2], port = 80\<rparr>] True example_single"
  by (simp add: example_pair_def example_single_def add_upstream_eval)

section \<open>Library configuration\<close>

lemma ups_ctx_upd [simp]: "ups_ctx (upd p f l) = ups_ctx l"
  by (simp add: upd_def)

lemma ups_ctx_fold_upd:
  "ups_ctx (fold (\<lambda>p l. if P p l then upd p (f p l) l else l) ps l) = ups_ctx l"
  by (induction ps arbitrary: l) simp_all

text \<open>
  C9. In \<^verbatim>\<open>rspamd_upstreams_library_config\<close>, when the configuration's
  \<^verbatim>\<open>upstream_revive_time\<close> is nonzero, the context's \<^verbatim>\<open>limits.revive_time\<close> becomes the value
  of \<^verbatim>\<open>cfg->upstream_max_errors\<close>, not that of the revive-time field.
\<close>

theorem library_config_revive_time:
  assumes "ups_ctx ls = Some c" and "upstream_revive_time cfg \<noteq> 0"
  shows "\<exists>ls' c'. rspamd_upstreams_library_config cfg loop resolver ls = Inr ls' \<and>
           ups_ctx ls' = Some c' \<and>
           revive_time (ctx_limits c') = real (unat (upstream_max_errors cfg))"
  using assms
  by (simp add: rspamd_upstreams_library_config_def Let_def ups_ctx_fold_upd)

text \<open>
  With \<^verbatim>\<open>upstream_revive_time = 30\<close> and \<^verbatim>\<open>upstream_max_errors = 7\<close> the revive time of the
  context becomes 7.
\<close>

theorem library_config_revive_time_witness:
  "ups_ctx empty_list = Some example_ctx \<and> upstream_revive_time example_cfg \<noteq> 0 \<and>
   (\<exists>ls' c'. rspamd_upstreams_library_config example_cfg True True empty_list = Inr ls' \<and>
      ups_ctx ls' = Some c' \<and> revive_time (ctx_limits c') = 7 \<and>
      revive_time (ctx_limits c') \<noteq> upstream_revive_time example_cfg)"
proof -
  have a: "ups_ctx empty_list = Some example_ctx" by (simp add: empty_list_def)
  have b: "upstream_revive_time example_cfg \<noteq> 0" by (simp add: example_cfg_def)
  from library_config_revive_time [OF a b, of True True]
  show ?thesis using a b by (auto simp: example_cfg_def)
qed

section \<open>Address rotation\<close>

text \<open>
  From a cursor inside the array the loop returns; each further iteration moves to an
  element with strictly more errors, so the number of iterations is bounded by the
  number of elements with more errors than the current one.
\<close>

lemma addr_next_loop_total:
  assumes "cur < length a"
  shows "\<exists>c m. addr_next_loop a cur n = Inr (c, m) \<and> c < length a \<and>
           m \<le> n + 1 + length (filter (\<lambda>e. addr_errors (a ! cur) < addr_errors e) a)"
  using assms
proof (induction a cur n rule: addr_next_loop.induct)
  case (1 a cur n)
  let ?next = "(cur + 1) mod length a"
  have len: "length a \<noteq> 0" using "1.prems" by auto
  then have nlt: "?next < length a" by simp
  show ?case
  proof (cases "addr_errors (a ! cur) < addr_errors (a ! ?next)")
    case False
    then show ?thesis using "1.prems" nlt len
      by (subst addr_next_loop.simps) (simp add: Let_def)
  next
    case True
    let ?P = "\<lambda>e. addr_errors (a ! ?next) < addr_errors e"
    let ?Q = "\<lambda>e. addr_errors (a ! cur) < addr_errors e"
    have mem: "a ! ?next \<in> set (filter ?Q a)" using True nlt by simp
    have "filter ?P a = filter ?P (filter ?Q a)"
      using True by (auto intro!: filter_cong)
    moreover have "length (filter ?P (filter ?Q a)) < length (filter ?Q a)"
      by (rule length_filter_less [OF mem]) simp
    ultimately have dec: "length (filter ?P a) < length (filter ?Q a)" by simp
    from "1.IH" [OF len _ refl refl True nlt] "1.prems"
    obtain c m where r: "addr_next_loop a ?next (Suc n) = Inr (c, m)" "c < length a"
        "m \<le> Suc n + 1 + length (filter ?P a)"
      by auto
    have "addr_next_loop a cur n = addr_next_loop a ?next (Suc n)"
      using True "1.prems" len by (subst addr_next_loop.simps) (simp add: Let_def)
    then show ?thesis using r dec by auto
  qed
qed

lemma filter_more_errors_bound:
  assumes "cur < length a"
  shows "length (filter (\<lambda>e. addr_errors (a ! cur) < addr_errors (e::upstream_addr_elt)) a)
           < length a"
  by (rule length_filter_less [of "a ! cur"]) (use assms in simp_all)

text \<open>
  C10. For an upstream with a non-empty address array (and its cursor inside it, as
  every routine leaves it), \<^verbatim>\<open>rspamd_upstream_addr_next\<close> terminates: the loop makes at
  most \<open>length a\<close> iterations, an address is returned and the new cursor is below the
  length.
\<close>

theorem addr_next_terminates:
  assumes "addrs_addr up = Some a" and "a \<noteq> []" and "addrs_cur up < length a"
  shows "\<exists>c n. addr_next_loop a (addrs_cur up) 0 = Inr (c, n) \<and> n \<le> length a \<and> c < length a \<and>
           rspamd_upstream_addr_next up = Inr (addr (a ! c), up\<lparr>addrs_cur := c\<rparr>)"
proof -
  from addr_next_loop_total [OF assms(3), of 0]
  obtain c m where r: "addr_next_loop a (addrs_cur up) 0 = Inr (c, m)" "c < length a"
      "m \<le> 0 + 1 + length (filter (\<lambda>e. addr_errors (a ! addrs_cur up) < addr_errors e) a)"
    by blast
  with filter_more_errors_bound [OF assms(3)] have "m \<le> length a" by simp
  with r assms(1) show ?thesis by (simp add: rspamd_upstream_addr_next_def)
qed

text \<open>
  Addresses with errors 0, 5, 0 and the cursor at 0: the loop skips the second address
  in two iterations and returns the third.
\<close>

theorem addr_next_terminates_witness:
  "addrs_addr example_upstream = Some example_addrs \<and> example_addrs \<noteq> [] \<and>
   addrs_cur example_upstream < length example_addrs \<and>
   addr_next_loop example_addrs (addrs_cur example_upstream) 0 = Inr (2, 2) \<and>
   rspamd_upstream_addr_next example_upstream =
     Inr (example_addr 3, example_upstream\<lparr>addrs_cur := 2\<rparr>)"
proof -
  have a: "addrs_addr example_upstream = Some example_addrs"
    by (simp add: example_upstream_def upstream_malloc0_def)
  have z: "addrs_cur example_upstream = 0"
    by (simp add: example_upstream_def upstream_malloc0_def)
  have n: "example_addrs \<noteq> []" by (simp add: example_addrs_def)
  have c: "addrs_cur example_upstream < length example_addrs"
    by (simp add: z example_addrs_def)
  from addr_next_terminates [OF a n c]
  obtain k m where r: "addr_next_loop example_addrs (addrs_cur example_upstream) 0 = Inr (k, m)"
    "rspamd_upstream_addr_next example_upstream =
       Inr (addr (example_addrs ! k), example_upstream\<lparr>addrs_cur := k\<rparr>)"
    by auto
  have l: "addr_next_loop example_addrs 0 0 = Inr (2, 2)"
    by (simp add: example_addrs_def Let_def)
  from r l z have "k = 2" by simp
  with r l a n c z show ?thesis by (simp add: example_addrs_def)
qed

section \<open>Consistent hashing\<close>

lemma consistent_hash_next_key_eq:
  "consistent_hash_next_key key = key * 2862933555777941758"
  by (simp add: consistent_hash_next_key_def)

text \<open>
  C4. The claim has the loop advance the key by \<open>key \<leftarrow> key \<times> 2862933555777941757 + 1\<close>.
  The statement of the C, \<^verbatim>\<open>key *= 2862933555777941757ULL + 1\<close>, multiplies the key by
  \<open>2862933555777941758\<close> and adds nothing. For the key 3 the two updates differ, and
  with 4 buckets the routine returns bucket 2 where the jump hash of the claim gives 3.
\<close>

theorem consistent_hash_key_update_differs:
  "consistent_hash_next_key 3 = 8588800667333825274 \<and>
   spec_next_key 3 = 8588800667333825272 \<and>
   rspamd_consistent_hash 3 4 = 2 \<and>
   spec_consistent_hash 3 4 = 3"
  by (simp add: consistent_hash_next_key_def spec_next_key_def rspamd_consistent_hash_def
      spec_consistent_hash_def Let_def)


section \<open>Address reconciliation\<close>

lemma mset_g_ptr_array_insert_sorted:
  "mset (g_ptr_array_insert_sorted cmp x ys) = add_mset x (mset ys)"
  by (induction ys) simp_all

lemma mset_g_ptr_array_sort: "mset (g_ptr_array_sort cmp xs) = mset xs"
  by (induction xs) (simp_all add: g_ptr_array_sort_def mset_g_ptr_array_insert_sorted)

lemma set_g_ptr_array_sort: "set (g_ptr_array_sort cmp xs) = set xs"
  using mset_g_ptr_array_sort [of cmp xs] by (rule mset_eq_setD)

lemma set_g_ptr_array_insert_sorted:
  "set (g_ptr_array_insert_sorted cmp x ys) = insert x (set ys)"
  by (induction ys) auto

lemma sorted_insert_family:
  "sorted_wrt family_order ys \<Longrightarrow>
   sorted_wrt family_order (g_ptr_array_insert_sorted rspamd_upstream_addr_sort_func x ys)"
proof (induction ys)
  case Nil
  then show ?case by simp
next
  case (Cons y ys)
  show ?case
  proof (cases "rspamd_upstream_addr_sort_func x y \<le> 0")
    case True
    then have xy: "family_order x y"
      by (simp add: rspamd_upstream_addr_sort_func_def family_order_def Let_def)
    then have "\<forall>z\<in>set ys. family_order x z"
      using Cons.prems by (auto simp: family_order_def)
    with xy True Cons.prems show ?thesis by simp
  next
    case False
    then have "family_order y x"
      by (simp add: rspamd_upstream_addr_sort_func_def family_order_def Let_def)
    with False Cons show ?thesis
      by (auto simp: set_g_ptr_array_insert_sorted)
  qed
qed

lemma sorted_g_ptr_array_sort_family:
  "sorted_wrt family_order (g_ptr_array_sort rspamd_upstream_addr_sort_func xs)"
  by (induction xs) (simp_all add: g_ptr_array_sort_def sorted_insert_family)

lemma addr_update_addrs_elt:
  "addr (update_addrs_elt old prt r s) = rspamd_inet_address_set_port s prt"
  by (simp add: update_addrs_elt_def Let_def split: option.split)

lemma errors_update_addrs_elt:
  "addr_errors (update_addrs_elt old prt r s) =
     (case find (\<lambda>old_elt. rspamd_inet_address_compare (addr old_elt) (addr (update_addrs_elt old prt r s)) False = 0) old of
        Some old_elt \<Rightarrow> if r then 0 else addr_errors old_elt
      | None \<Rightarrow> 0)"
  by (simp add: addr_update_addrs_elt) (simp add: update_addrs_elt_def Let_def split: option.split)

text \<open>
  C7. After \<^verbatim>\<open>rspamd_upstream_update_addrs\<close> on a non-empty staged list and a non-empty
  current array: the new addresses are the staged ones, each with the port of the first
  previous address; an element whose address equals a previous one without the port has
  the errors of (the first such) previous element, or 0 under \<open>reset_errors\<close>, and an
  unseen one has 0 errors; the cursor is 0, the staged list is emptied and the array is
  sorted by family preference.
\<close>

theorem update_addrs_reconciles:
  assumes "addrs_addr up = Some old" and "old \<noteq> []" and "new_addrs up \<noteq> []"
  shows "\<exists>up' new. rspamd_upstream_update_addrs reset_errors up = Inr up' \<and>
           addrs_addr up' = Some new \<and>
           mset (map addr new) =
             mset (map (\<lambda>s. s\<lparr>port := port (addr (hd old))\<rparr>) (new_addrs up)) \<and>
           (\<forall>e\<in>set new.
              port (addr e) = port (addr (hd old)) \<and>
              addr_errors e =
                (case find (\<lambda>old_elt. rspamd_inet_address_compare (addr old_elt) (addr e) False = 0) old of
                   Some old_elt \<Rightarrow> if reset_errors then 0 else addr_errors old_elt
                 | None \<Rightarrow> 0)) \<and>
           addrs_cur up' = 0 \<and> new_addrs up' = [] \<and>
           sorted_wrt family_order new"
proof -
  let ?prt = "rspamd_inet_address_get_port (addr (old ! 0))"
  let ?raw = "map (update_addrs_elt old ?prt reset_errors) (new_addrs up)"
  let ?new = "g_ptr_array_sort rspamd_upstream_addr_sort_func ?raw"
  have prt: "?prt = port (addr (hd old))"
    using assms(2) by (simp add: rspamd_inet_address_get_port_def hd_conv_nth)
  have run: "rspamd_upstream_update_addrs reset_errors up =
      Inr (up\<lparr>addrs_cur := 0, addrs_addr := Some ?new, new_addrs := []\<rparr>)"
    using assms by (simp add: rspamd_upstream_update_addrs_def Let_def)
  have "mset (map addr ?new) = image_mset addr (mset ?new)" by (rule mset_map)
  also have "\<dots> = image_mset addr (mset ?raw)" by (simp only: mset_g_ptr_array_sort)
  also have "\<dots> = mset (map addr ?raw)" by (rule mset_map [symmetric])
  also have "map addr ?raw = map (\<lambda>s. s\<lparr>port := port (addr (hd old))\<rparr>) (new_addrs up)"
    by (simp add: addr_update_addrs_elt rspamd_inet_address_set_port_def prt)
  finally have m: "mset (map addr ?new) =
      mset (map (\<lambda>s. s\<lparr>port := port (addr (hd old))\<rparr>) (new_addrs up))" .
  have e: "\<forall>e\<in>set ?new.
      port (addr e) = port (addr (hd old)) \<and>
      addr_errors e =
        (case find (\<lambda>old_elt. rspamd_inet_address_compare (addr old_elt) (addr e) False = 0) old of
           Some old_elt \<Rightarrow> if reset_errors then 0 else addr_errors old_elt
         | None \<Rightarrow> 0)"
  proof
    fix e assume "e \<in> set ?new"
    then obtain s where s: "e = update_addrs_elt old ?prt reset_errors s"
      by (auto simp: set_g_ptr_array_sort)
    have "port (addr e) = port (addr (hd old))"
      by (simp add: s addr_update_addrs_elt rspamd_inet_address_set_port_def prt)
    moreover have "addr_errors e =
        (case find (\<lambda>old_elt. rspamd_inet_address_compare (addr old_elt) (addr e) False = 0) old of
           Some old_elt \<Rightarrow> if reset_errors then 0 else addr_errors old_elt
         | None \<Rightarrow> 0)"
      unfolding s by (rule errors_update_addrs_elt)
    ultimately show "port (addr e) = port (addr (hd old)) \<and>
      addr_errors e =
        (case find (\<lambda>old_elt. rspamd_inet_address_compare (addr old_elt) (addr e) False = 0) old of
           Some old_elt \<Rightarrow> if reset_errors then 0 else addr_errors old_elt
         | None \<Rightarrow> 0)" by simp
  qed
  show ?thesis
    using run m e sorted_g_ptr_array_sort_family [of ?raw] by simp
qed

text \<open>
  The example: the port 25 is copied, \<open>2.2.2.2\<close> keeps its 2 errors, \<open>1.1.1.1\<close> is dropped,
  the IPv6 address goes last.
\<close>

theorem update_addrs_reconciles_witness:
  "addrs_addr example_resolved = Some example_old_addrs \<and> example_old_addrs \<noteq> [] \<and>
   new_addrs example_resolved \<noteq> [] \<and>
   rspamd_upstream_update_addrs False example_resolved =
     Inr (example_resolved\<lparr>addrs_cur := 0, new_addrs := [],
            addrs_addr := Some
              [\<lparr>addr = example_addr 2, addr_errors = 2\<rparr>,
               \<lparr>addr = example_addr 3, addr_errors = 0\<rparr>,
               \<lparr>addr = \<lparr>af = AF_INET6, payload = [0, 0, 0, 1], port = 25\<rparr>, addr_errors = 0\<rparr>]\<rparr>)"
proof -
  have a: "addrs_addr example_resolved = Some example_old_addrs"
    by (simp add: example_resolved_def)
  have b: "example_old_addrs \<noteq> []" by (simp add: example_old_addrs_def)
  have c: "new_addrs example_resolved \<noteq> []"
    by (simp add: example_resolved_def example_staged_def)
  from update_addrs_reconciles [OF a b c, of False]
  obtain up' where r: "rspamd_upstream_update_addrs False example_resolved = Inr up'"
    "addrs_cur up' = 0" "new_addrs up' = []"
    by blast
  have "rspamd_upstream_update_addrs False example_resolved =
     Inr (example_resolved\<lparr>addrs_cur := 0, new_addrs := [],
            addrs_addr := Some
              [\<lparr>addr = example_addr 2, addr_errors = 2\<rparr>,
               \<lparr>addr = example_addr 3, addr_errors = 0\<rparr>,
               \<lparr>addr = \<lparr>af = AF_INET6, payload = [0, 0, 0, 1], port = 25\<rparr>, addr_errors = 0\<rparr>]\<rparr>)"
    by (simp add: rspamd_upstream_update_addrs_def example_resolved_def example_old_addrs_def
        example_staged_def example_addr_def update_addrs_elt_def Let_def
        rspamd_inet_address_get_port_def rspamd_inet_address_set_port_def
        rspamd_inet_address_compare_def g_ptr_array_sort_def rspamd_upstream_addr_sort_func_def
        rspamd_upstream_af_to_weight_def rspamd_inet_address_get_af_def)
  with r a b c show ?thesis by simp
qed

section \<open>Sequential rotation\<close>

lemma get_common_sequential_step:
  assumes "get_rotation ls d k f = RSPAMD_UPSTREAM_SEQUENTIAL" and "cur_elt ls < length (alive ls)"
  shows "rspamd_upstream_get_common H rnd d k f ls =
           Inr (Some (alive ls ! cur_elt ls),
                upd (alive ls ! cur_elt ls) (\<lambda>u. u\<lparr>checked := checked u + 1\<rparr>)
                  (ls\<lparr>cur_elt := cur_elt ls + 1\<rparr>))"
  using assms by (auto simp: rspamd_upstream_get_common_def get_select_def)

lemma get_common_sequential_end:
  assumes "get_rotation ls d k f = RSPAMD_UPSTREAM_SEQUENTIAL" and "alive ls \<noteq> []"
    and "length (alive ls) \<le> cur_elt ls"
  shows "rspamd_upstream_get_common H rnd d k f ls = Inr (None, ls\<lparr>cur_elt := 0\<rparr>)"
  using assms by (auto simp: rspamd_upstream_get_common_def get_select_def)

lemma get_repeat_sequential:
  assumes "get_rotation ls d k f = RSPAMD_UPSTREAM_SEQUENTIAL"
    and "cur_elt ls + n \<le> length (alive ls)"
  shows "\<exists>ls'. get_repeat (rspamd_upstream_get_common H rnd d k f) n ls =
             Inr (map Some (take n (drop (cur_elt ls) (alive ls))), ls') \<and>
           alive ls' = alive ls \<and> rot_alg ls' = rot_alg ls \<and> cur_elt ls' = cur_elt ls + n"
  using assms
proof (induction n arbitrary: ls)
  case 0
  then show ?case by simp
next
  case (Suc n)
  let ?p = "alive ls ! cur_elt ls"
  let ?ls1 = "upd ?p (\<lambda>u. u\<lparr>checked := checked u + 1\<rparr>) (ls\<lparr>cur_elt := cur_elt ls + 1\<rparr>)"
  have lt: "cur_elt ls < length (alive ls)" using Suc.prems by simp
  have step: "rspamd_upstream_get_common H rnd d k f ls = Inr (Some ?p, ?ls1)"
    by (rule get_common_sequential_step [OF Suc.prems(1) lt])
  have "get_rotation ?ls1 d k f = get_rotation ls d k f"
    by (rule get_rotation_cong) simp
  then have rot1: "get_rotation ?ls1 d k f = RSPAMD_UPSTREAM_SEQUENTIAL"
    using Suc.prems(1) by simp
  have "cur_elt ?ls1 + n \<le> length (alive ?ls1)" using Suc.prems by simp
  from Suc.IH [OF rot1 this]
  obtain ls' where r: "get_repeat (rspamd_upstream_get_common H rnd d k f) n ?ls1 =
      Inr (map Some (take n (drop (cur_elt ?ls1) (alive ?ls1))), ls')"
      "alive ls' = alive ?ls1" "rot_alg ls' = rot_alg ?ls1" "cur_elt ls' = cur_elt ?ls1 + n"
    by blast
  have "take (Suc n) (drop (cur_elt ls) (alive ls)) =
      ?p # take n (drop (Suc (cur_elt ls)) (alive ls))"
    using lt by (simp add: Cons_nth_drop_Suc [symmetric])
  with step r show ?case by simp
qed

text \<open>
  C6. Under Sequential rotation with \<open>N \<ge> 1\<close> alive upstreams and \<^verbatim>\<open>cur_elt = 0\<close>, \<open>N\<close>
  consecutive Gets return \<open>alive[0], ..., alive[N - 1]\<close> in this order (each position of
  \<open>alive\<close> once), and the next Get returns NULL and leaves \<^verbatim>\<open>cur_elt = 0\<close>.
\<close>

theorem sequential_exhaustive:
  assumes "get_rotation ls d k f = RSPAMD_UPSTREAM_SEQUENTIAL"
    and "alive ls \<noteq> []" and "cur_elt ls = 0"
  shows "\<exists>ls' ls''.
           get_repeat (rspamd_upstream_get_common H rnd d k f) (length (alive ls)) ls =
             Inr (map Some (alive ls), ls') \<and>
           rspamd_upstream_get_common H rnd d k f ls' = Inr (None, ls'') \<and>
           cur_elt ls'' = 0 \<and> alive ls'' = alive ls"
proof -
  from get_repeat_sequential [OF assms(1), of "length (alive ls)" H rnd] assms(3)
  obtain ls' where r: "get_repeat (rspamd_upstream_get_common H rnd d k f) (length (alive ls)) ls =
      Inr (map Some (alive ls), ls')" "alive ls' = alive ls" "rot_alg ls' = rot_alg ls"
      "cur_elt ls' = length (alive ls)"
    by auto
  have rot: "get_rotation ls' d k f = RSPAMD_UPSTREAM_SEQUENTIAL"
    using assms(1) r(3) by (simp add: get_rotation_cong [of ls' ls])
  have "rspamd_upstream_get_common H rnd d k f ls' = Inr (None, ls'\<lparr>cur_elt := 0\<rparr>)"
    by (rule get_common_sequential_end [OF rot]) (use r assms(2) in simp_all)
  with r show ?thesis by simp
qed

text \<open>Three upstreams with the rotation forced to Sequential.\<close>

theorem sequential_exhaustive_witness:
  "get_rotation example_three RSPAMD_UPSTREAM_SEQUENTIAL None True = RSPAMD_UPSTREAM_SEQUENTIAL \<and>
   alive example_three \<noteq> [] \<and> cur_elt example_three = 0 \<and>
   (\<exists>ls' ls''.
      get_repeat (rspamd_upstream_get_forced (\<lambda>k s. 0) 0 RSPAMD_UPSTREAM_SEQUENTIAL None) 3
          example_three = Inr ([Some 0, Some 1, Some 2], ls') \<and>
      rspamd_upstream_get_forced (\<lambda>k s. 0) 0 RSPAMD_UPSTREAM_SEQUENTIAL None ls' =
        Inr (None, ls'') \<and>
      cur_elt ls'' = 0 \<and> alive ls'' = [0, 1, 2])"
proof -
  have G: "rspamd_upstream_get_forced (\<lambda>k s. 0) 0 RSPAMD_UPSTREAM_SEQUENTIAL None =
      rspamd_upstream_get_common (\<lambda>k s. 0) 0 RSPAMD_UPSTREAM_SEQUENTIAL None True"
    by (rule ext) (simp add: rspamd_upstream_get_forced_def)
  have a: "get_rotation example_three RSPAMD_UPSTREAM_SEQUENTIAL None True =
      RSPAMD_UPSTREAM_SEQUENTIAL"
    by (simp add: get_rotation_def)
  have al: "alive example_three = [0, 1, 2]"
    by (simp add: example_three_def example_defs)
  have b: "alive example_three \<noteq> []" by (simp add: al)
  have c: "cur_elt example_three = 0"
    by (simp add: example_three_def example_defs)
  have len: "length (alive example_three) = 3" by (simp add: al)
  note sequential_exhaustive [OF a b c, of "\<lambda>k s. 0" 0, unfolded len, unfolded al]
  then show ?thesis using a b c by (simp add: G al)
qed

section \<open>The index invariant of \<^verbatim>\<open>alive\<close>\<close>

lemma alive_idx_inv_view: "alive_idx_inv ls = idx_ok (alive ls) (map active_idx (ups ls))"
  unfolding alive_idx_inv_def idx_ok_def
  by (intro ball_cong refl) auto

lemma idx_ok_append:
  assumes "idx_ok al ix" and "p < length ix"
  shows "idx_ok (al @ [p]) (ix[p := int (length al)])"
  unfolding idx_ok_def
proof
  fix u assume u: "u \<in> set (al @ [p])"
  show "u < length (ix[p := int (length al)]) \<and> 0 \<le> ix[p := int (length al)] ! u \<and>
        nat (ix[p := int (length al)] ! u) < length (al @ [p]) \<and>
        (al @ [p]) ! nat (ix[p := int (length al)] ! u) = u"
  proof (cases "u = p")
    case True
    then show ?thesis using assms(2) by simp
  next
    case False
    with u have "u \<in> set al" by simp
    with assms(1) have "u < length ix" "0 \<le> ix ! u" "nat (ix ! u) < length al"
      "al ! nat (ix ! u) = u"
      by (auto simp: idx_ok_def)
    with False show ?thesis by (simp add: nth_append)
  qed
qed

lemma idx_ok_grow:
  assumes "idx_ok al ix"
  shows "idx_ok al (ix @ [x])"
  using assms unfolding idx_ok_def by (auto simp: nth_append)


lemma reindex_Suc: "reindex al (Suc k) ix = (reindex al k ix)[al ! k := int k]"
  by (simp add: reindex_def)

lemma length_reindex [simp]: "length (reindex al k ix) = length ix"
  by (induction k) (simp_all add: reindex_Suc, simp add: reindex_def)

lemma reindex_prefix:
  assumes "set al \<subseteq> {..<length ix}" and "k \<le> length al" and "j < k"
  shows "0 \<le> reindex al k ix ! (al ! j) \<and> nat (reindex al k ix ! (al ! j)) < k \<and>
         al ! nat (reindex al k ix ! (al ! j)) = al ! j"
  using assms(2,3)
proof (induction k)
  case 0
  then show ?case by simp
next
  case (Suc k)
  have k: "al ! k < length ix" using assms(1) Suc.prems(1) by (auto simp: subset_iff)
  show ?case
  proof (cases "al ! j = al ! k")
    case True
    then show ?thesis using k by (simp add: reindex_Suc)
  next
    case False
    then have "j \<noteq> k" by auto
    with Suc.prems have "j < k" by simp
    with Suc.IH Suc.prems False show ?thesis
      by (auto simp: reindex_Suc)
  qed
qed

lemma idx_ok_reindex:
  assumes "set al \<subseteq> {..<length ix}"
  shows "idx_ok al (reindex al (length al) ix)"
  unfolding idx_ok_def
proof
  fix u assume "u \<in> set al"
  then obtain j where j: "j < length al" "al ! j = u" by (auto simp: in_set_conv_nth)
  from reindex_prefix [OF assms le_refl j(1)] j(2) assms \<open>u \<in> set al\<close>
  show "u < length (reindex al (length al) ix) \<and> 0 \<le> reindex al (length al) ix ! u \<and>
        nat (reindex al (length al) ix ! u) < length al \<and>
        al ! nat (reindex al (length al) ix ! u) = u"
    by auto
qed

lemma set_remove_index: "set (g_ptr_array_remove_index xs i) \<subseteq> set xs"
  by (auto simp: g_ptr_array_remove_index_def dest: in_set_takeD in_set_dropD)

(* views *)
lemma view_upd:
  "map active_idx (ups (upd p f ls)) = (map active_idx (ups ls))[p := active_idx (f (ups ls ! p))]"
  by (simp add: upd_def map_update)

lemma view_upd_same:
  assumes "\<And>u. active_idx (f u) = active_idx u"
  shows "map active_idx (ups (upd p f ls)) = map active_idx (ups ls)"
proof (cases "p < length (ups ls)")
  case True
  then show ?thesis by (simp add: view_upd assms list_update_same_conv)
next
  case False
  then show ?thesis by (simp add: upd_def list_update_beyond)
qed


lemma update_indices_fold:
  "alive (fold (\<lambda>i l. upd (al ! i) (\<lambda>cur. cur\<lparr>active_idx := int i\<rparr>) l) ks ls) = alive ls \<and>
   map active_idx (ups (fold (\<lambda>i l. upd (al ! i) (\<lambda>cur. cur\<lparr>active_idx := int i\<rparr>) l) ks ls)) =
     fold (\<lambda>i ix. ix[al ! i := int i]) ks (map active_idx (ups ls))"
  by (induction ks arbitrary: ls) (simp_all add: view_upd)

lemma update_indices_alive_fold:
  "alive (fold (\<lambda>i l. upd (alive l ! i) (\<lambda>cur. cur\<lparr>active_idx := int i\<rparr>) l) ks ls) = alive ls"
  by (induction ks arbitrary: ls) simp_all

lemma update_indices_fold_eq:
  "fold (\<lambda>i l. upd (alive l ! i) (\<lambda>cur. cur\<lparr>active_idx := int i\<rparr>) l) ks ls =
   fold (\<lambda>i l. upd (alive ls ! i) (\<lambda>cur. cur\<lparr>active_idx := int i\<rparr>) l) ks ls"
proof -
  have "\<And>l. alive l = alive ls \<Longrightarrow>
     fold (\<lambda>i l. upd (alive l ! i) (\<lambda>cur. cur\<lparr>active_idx := int i\<rparr>) l) ks l =
     fold (\<lambda>i l. upd (alive ls ! i) (\<lambda>cur. cur\<lparr>active_idx := int i\<rparr>) l) ks l"
    by (induction ks) simp_all
  then show ?thesis by simp
qed

lemma update_indices_view:
  "alive (update_indices ls) = alive ls"
  "map active_idx (ups (update_indices ls)) =
     reindex (alive ls) (length (alive ls)) (map active_idx (ups ls))"
  unfolding update_indices_def reindex_def update_indices_fold_eq
  using update_indices_fold [of "alive ls" "[0..<length (alive ls)]" ls] by simp_all


lemma set_inactive_view:
  "alive (rspamd_upstream_set_inactive p ls) =
     g_ptr_array_remove_index (alive ls) (active_idx (ups ls ! p))"
  "map active_idx (ups (rspamd_upstream_set_inactive p ls)) =
     reindex (alive (rspamd_upstream_set_inactive p ls))
       (length (alive (rspamd_upstream_set_inactive p ls)))
       ((map active_idx (ups ls))[p := - 1])"
proof -
  define ls3 where "ls3 = update_indices (upd p (\<lambda>u. u\<lparr>active_idx := - 1\<rparr>)
     (ls\<lparr>alive := g_ptr_array_remove_index (alive ls) (active_idx (ups ls ! p))\<rparr>))"
  define tm where "tm = (\<lambda>c u.
     let u1 = rspamd_upstream_resolve_addrs c u;
         u2 = u1\<lparr>refcount := Suc (refcount u1)\<rparr>;
         w = ev_timer_init revive_cb
     in u2\<lparr>ev := (if event_loop c \<and> configured c then ev_timer_start w else w)\<rparr>)"
  define ls4 where "ls4 = (case up_ctx ls3 p of None \<Rightarrow> ls3 | Some c \<Rightarrow> upd p (tm c) ls3)"
  have eq: "rspamd_upstream_set_inactive p ls =
      notify p RSPAMD_UPSTREAM_WATCH_OFFLINE (errors (ups ls4 ! p)) ls4"
    unfolding rspamd_upstream_set_inactive_def ls3_def ls4_def tm_def Let_def by (rule refl)
  have a3: "alive ls3 = g_ptr_array_remove_index (alive ls) (active_idx (ups ls ! p))"
    by (simp add: ls3_def update_indices_view)
  have v3: "map active_idx (ups ls3) =
      reindex (alive ls3) (length (alive ls3)) ((map active_idx (ups ls))[p := - 1])"
    by (simp add: ls3_def update_indices_view view_upd)
  have tm: "\<And>c u. active_idx (tm c u) = active_idx u"
    by (simp add: tm_def Let_def)
  have a4: "alive ls4 = alive ls3"
    by (simp add: ls4_def split: option.split)
  have v4: "map active_idx (ups ls4) = map active_idx (ups ls3)"
    by (simp add: ls4_def view_upd_same [OF tm] split: option.split)
  show "alive (rspamd_upstream_set_inactive p ls) =
     g_ptr_array_remove_index (alive ls) (active_idx (ups ls ! p))"
    by (simp add: eq a4 a3)
  show "map active_idx (ups (rspamd_upstream_set_inactive p ls)) =
     reindex (alive (rspamd_upstream_set_inactive p ls))
       (length (alive (rspamd_upstream_set_inactive p ls)))
       ((map active_idx (ups ls))[p := - 1])"
    by (simp add: eq a4 v4 v3)
qed

lemma inv_set_inactive:
  assumes "alive_idx_inv ls"
  shows "alive_idx_inv (rspamd_upstream_set_inactive p ls)"
proof -
  have "set (alive ls) \<subseteq> {..<length (ups ls)}"
    using assms by (auto simp: alive_idx_inv_def)
  with set_remove_index [of "alive ls" "active_idx (ups ls ! p)"]
  have "set (alive (rspamd_upstream_set_inactive p ls)) \<subseteq>
      {..<length ((map active_idx (ups ls))[p := - 1])}"
    by (auto simp: set_inactive_view(1))
  from idx_ok_reindex [OF this] show ?thesis
    by (simp add: alive_idx_inv_view set_inactive_view(2))
qed


lemma inv_view_cong:
  assumes "alive ls' = alive ls" and "map active_idx (ups ls') = map active_idx (ups ls)"
  shows "alive_idx_inv ls' = alive_idx_inv ls"
  by (simp add: alive_idx_inv_view assms)

lemma inv_upd_same:
  assumes "\<And>u. active_idx (f u) = active_idx u"
  shows "alive_idx_inv (upd p f ls) = alive_idx_inv ls"
  by (rule inv_view_cong) (simp_all add: view_upd_same [OF assms])

lemma inv_notify [simp]: "alive_idx_inv (notify p e c ls) = alive_idx_inv ls"
  by (rule inv_view_cong) simp_all

lemma inv_record_updates [simp]:
  "alive_idx_inv (ls\<lparr>cur_elt := n\<rparr>) = alive_idx_inv ls"
  "alive_idx_inv (ls\<lparr>calls := cs\<rparr>) = alive_idx_inv ls"
  by (simp_all add: alive_idx_inv_def)

lemma set_active_view:
  "alive (rspamd_upstream_set_active p ls) = alive ls @ [p]"
  "map active_idx (ups (rspamd_upstream_set_active p ls)) =
     (map active_idx (ups ls))[p := int (length (alive ls))]"
  "length (ups (rspamd_upstream_set_active p ls)) = length (ups ls)"
proof -
  define ls2 where "ls2 =
      upd p (\<lambda>u. u\<lparr>active_idx := int (length (alive (ls\<lparr>alive := alive ls @ [p]\<rparr>))) - 1\<rparr>)
      (ls\<lparr>alive := alive ls @ [p]\<rparr>)"
  define ls3 where "ls3 = (case up_ctx ls2 p of None \<Rightarrow> ls2
      | Some c \<Rightarrow> if configured c \<and> \<not> noresolve (ups ls2 ! p)
          then upd p (\<lambda>u. u\<lparr>ev := ev_timer_start (ev_timer_init lazy_resolve_cb)\<rparr>) ls2
          else ls2)"
  have eq: "rspamd_upstream_set_active p ls = ls3"
    unfolding rspamd_upstream_set_active_def ls2_def ls3_def Let_def by (rule refl)
  have a2: "alive ls2 = alive ls @ [p]" by (simp add: ls2_def)
  have v2: "map active_idx (ups ls2) = (map active_idx (ups ls))[p := int (length (alive ls))]"
    by (simp add: ls2_def view_upd)
  have l2: "length (ups ls2) = length (ups ls)" by (simp add: ls2_def)
  show "alive (rspamd_upstream_set_active p ls) = alive ls @ [p]"
    by (simp add: eq ls3_def a2 split: option.split)
  show "map active_idx (ups (rspamd_upstream_set_active p ls)) =
     (map active_idx (ups ls))[p := int (length (alive ls))]"
    by (simp add: eq ls3_def v2 view_upd_same split: option.split)
  show "length (ups (rspamd_upstream_set_active p ls)) = length (ups ls)"
    by (simp add: eq ls3_def l2 split: option.split)
qed

lemma inv_set_active:
  assumes "alive_idx_inv ls" and "p < length (ups ls)"
  shows "alive_idx_inv (rspamd_upstream_set_active p ls)"
  using idx_ok_append [of "alive ls" "map active_idx (ups ls)" p] assms
  by (simp add: alive_idx_inv_view set_active_view)

lemma assert_release_view:
  assumes "assert_release p ls = Inr ls'"
  shows "alive ls' = alive ls" and "map active_idx (ups ls') = map active_idx (ups ls)"
    and "length (ups ls') = length (ups ls)"
  using assms by (auto simp: assert_release_def view_upd_same split: if_splits)

lemma inv_assert_release:
  assumes "assert_release p ls = Inr ls'"
  shows "alive_idx_inv ls' = alive_idx_inv ls"
  by (rule inv_view_cong) (rule assert_release_view [OF assms])+

lemma inv_revive_cb:
  assumes "alive_idx_inv ls" and "p < length (ups ls)"
    and "rspamd_upstream_revive_cb p ls = Inr ls'"
  shows "alive_idx_inv ls'"
proof -
  let ?ls1 = "upd p (\<lambda>u. u\<lparr>ev := ev_timer_stop (ev u)\<rparr>) ls"
  have "alive_idx_inv ?ls1" using assms(1) by (simp add: inv_upd_same)
  then have "alive_idx_inv (rspamd_upstream_set_active p ?ls1)"
    by (rule inv_set_active) (simp add: assms(2))
  moreover have "assert_release p (rspamd_upstream_set_active p ?ls1) = Inr ls'"
    using assms(3) by (simp add: rspamd_upstream_revive_cb_def Let_def)
  ultimately show ?thesis by (simp add: inv_assert_release)
qed

lemma restore_cb_view:
  assumes "rspamd_upstream_restore_cb p ls = Inr ls'"
  shows "alive ls' = alive ls @ [p]"
    and "map active_idx (ups ls') = (map active_idx (ups ls))[p := int (length (alive ls))]"
    and "length (ups ls') = length (ups ls)"
proof -
  define ls4 where "ls4 =
    (let ls1 = upd p (\<lambda>u. if ev_can_stop (ev u) then u\<lparr>ev := ev_timer_stop (ev u)\<rparr> else u) ls;
         ls2 = ls1\<lparr>alive := alive ls1 @ [p]\<rparr>;
         ls3 = upd p (\<lambda>u. u\<lparr>active_idx := int (length (alive ls2)) - 1\<rparr>) ls2
     in notify p RSPAMD_UPSTREAM_WATCH_ONLINE (errors (ups ls3 ! p)) ls3)"
  have rel: "assert_release p ls4 = Inr ls'"
    using assms unfolding rspamd_upstream_restore_cb_def ls4_def Let_def by simp
  have a4: "alive ls4 = alive ls @ [p]" by (simp add: ls4_def Let_def)
  have "map active_idx (ups (upd p (\<lambda>u. if ev_can_stop (ev u) then u\<lparr>ev := ev_timer_stop (ev u)\<rparr> else u) ls))
      = map active_idx (ups ls)"
    by (rule view_upd_same) simp
  then have v4: "map active_idx (ups ls4) = (map active_idx (ups ls))[p := int (length (alive ls))]"
    by (simp add: ls4_def Let_def view_upd)
  have l4: "length (ups ls4) = length (ups ls)" by (simp add: ls4_def Let_def)
  from assert_release_view [OF rel] a4 v4 l4
  show "alive ls' = alive ls @ [p]"
    and "map active_idx (ups ls') = (map active_idx (ups ls))[p := int (length (alive ls))]"
    and "length (ups ls') = length (ups ls)"
    by simp_all
qed

lemma inv_restore_cb:
  assumes "alive_idx_inv ls" and "p < length (ups ls)"
    and "rspamd_upstream_restore_cb p ls = Inr ls'"
  shows "alive_idx_inv ls'"
  using idx_ok_append [of "alive ls" "map active_idx (ups ls)" p] assms(1,2)
  by (simp add: alive_idx_inv_view restore_cb_view [OF assms(3)])

lemma inv_foreach_restore:
  assumes "alive_idx_inv ls" and "\<forall>p\<in>set ps. p < length (ups ls)"
    and "g_ptr_array_foreach rspamd_upstream_restore_cb ps ls = Inr ls'"
  shows "alive_idx_inv ls'"
  using assms
proof (induction ps arbitrary: ls)
  case Nil
  then show ?case by simp
next
  case (Cons p ps)
  from Cons.prems(3) obtain ls1 where s: "rspamd_upstream_restore_cb p ls = Inr ls1"
      "g_ptr_array_foreach rspamd_upstream_restore_cb ps ls1 = Inr ls'"
    by (auto split: sum.splits)
  have "alive_idx_inv ls1"
    by (rule inv_restore_cb [OF Cons.prems(1) _ s(1)]) (use Cons.prems(2) in simp)
  moreover have "\<forall>q\<in>set ps. q < length (ups ls1)"
    using Cons.prems(2) restore_cb_view(3) [OF s(1)] by simp
  ultimately show ?case using s(2) by (rule Cons.IH)
qed

lemma inv_reset_checked [simp]: "alive_idx_inv (reset_checked ls) = alive_idx_inv ls"
proof -
  have "\<And>l. alive_idx_inv (fold (\<lambda>p l. upd p (\<lambda>up. up\<lparr>checked := 0\<rparr>) l) ps l) = alive_idx_inv l" for ps
    by (induction ps) (simp_all add: inv_upd_same)
  then show ?thesis by (simp add: reset_checked_def)
qed

lemma inv_round_robin:
  "alive_idx_inv (snd (rspamd_upstream_get_round_robin use_cur ls)) = alive_idx_inv ls"
  by (simp add: rspamd_upstream_get_round_robin_def Let_def inv_upd_same
      split: prod.split option.split)

lemma inv_get_select:
  assumes "alive_idx_inv ls" and "get_select H rnd k rot ls = Inr (r, ls')"
  shows "alive_idx_inv ls'"
proof (cases rot)
  case RSPAMD_UPSTREAM_ROUND_ROBIN
  with assms inv_round_robin [of True ls] show ?thesis by (auto simp: get_select_def)
next
  case RSPAMD_UPSTREAM_MASTER_SLAVE
  with assms inv_round_robin [of False ls] show ?thesis by (auto simp: get_select_def)
next
  case RSPAMD_UPSTREAM_SEQUENTIAL
  with assms show ?thesis by (auto simp: get_select_def split: if_splits)
qed (use assms in \<open>auto simp: get_select_def split: sum.splits\<close>)

lemma inv_get_common:
  assumes "alive_idx_inv ls" and "rspamd_upstream_get_common H rnd d k f ls = Inr (r, ls')"
  shows "alive_idx_inv ls'"
proof -
  obtain ls1 where m: "(if length (alive ls) = 0
            then g_ptr_array_foreach rspamd_upstream_restore_cb [0..<length (ups ls)] ls
            else Inr ls) = Inr ls1"
    using assms(2) by (auto simp: rspamd_upstream_get_common_def split: sum.splits)
  have i1: "alive_idx_inv ls1"
  proof (cases "length (alive ls) = 0")
    case True
    with m have "g_ptr_array_foreach rspamd_upstream_restore_cb [0..<length (ups ls)] ls = Inr ls1"
      by simp
    from inv_foreach_restore [OF assms(1) _ this] show ?thesis by simp
  next
    case False
    with m assms(1) show ?thesis by simp
  qed
  obtain r1 l1 where pick: "get_select H rnd k (get_rotation ls1 d k f) ls1 = Inr (r1, l1)"
    and fin: "(case r1 of None \<Rightarrow> Inr (None, l1)
        | Some up \<Rightarrow> Inr (Some up, upd up (\<lambda>u. u\<lparr>checked := checked u + 1\<rparr>) l1)) =
        (Inr (r, ls') :: fault + (nat option \<times> upstream_list))"
    using assms(2) unfolding rspamd_upstream_get_common_def m
    by (auto split: sum.splits option.splits)
  have "alive_idx_inv l1" by (rule inv_get_select [OF i1 pick])
  with fin show ?thesis by (auto simp: inv_upd_same split: option.splits)
qed

lemma inv_cur_addr_elt_update:
  assumes "cur_addr_elt_update p g ls = Inr ls'"
  shows "alive_idx_inv ls' = alive_idx_inv ls"
  using assms
  by (auto simp: cur_addr_elt_update_def Let_def inv_upd_same split: option.splits if_splits)

lemma inv_set_inactive_simp [simp]:
  "alive_idx_inv ls \<Longrightarrow> alive_idx_inv (rspamd_upstream_set_inactive p ls)"
  by (rule inv_set_inactive)

lemma inv_fail_account:
  assumes "alive_idx_inv ls"
  shows "alive_idx_inv (fail_account c t p ls)"
  unfolding fail_account_def Let_def using assms by (simp add: inv_upd_same)

lemma inv_fail:
  assumes "alive_idx_inv ls" and "rspamd_upstream_fail t p addr_failure ls = Inr ls'"
  shows "alive_idx_inv ls'"
  using assms inv_fail_account [OF assms(1)]
  by (auto simp: rspamd_upstream_fail_def Let_def inv_cur_addr_elt_update
      split: option.splits if_splits)

lemma inv_add_upstream:
  assumes "alive_idx_inv ls"
  shows "alive_idx_inv (rspamd_upstreams_add_upstream nm wgt addrs numeric ls)"
proof -
  obtain u where eq: "rspamd_upstreams_add_upstream nm wgt addrs numeric ls =
      rspamd_upstream_set_active (length (ups ls)) (ls\<lparr>ups := ups ls @ [u]\<rparr>)"
    by (simp add: rspamd_upstreams_add_upstream_def Let_def)
  have "alive_idx_inv (ls\<lparr>ups := ups ls @ [u]\<rparr>)"
    using idx_ok_grow [of "alive ls" "map active_idx (ups ls)" "active_idx u"] assms
    by (simp add: alive_idx_inv_view)
  then show ?thesis unfolding eq by (rule inv_set_active) simp
qed

text \<open>
  C8. Every routine that changes \<^verbatim>\<open>alive\<close> keeps the invariant that each \<open>u\<close> in \<^verbatim>\<open>alive\<close> has
  \<^verbatim>\<open>alive[u->active_idx] == u\<close>: adding an upstream, \<^verbatim>\<open>rspamd_upstream_set_active\<close>,
  \<^verbatim>\<open>rspamd_upstream_set_inactive\<close>, \<^verbatim>\<open>rspamd_upstream_fail\<close> (with its ejection), the revive
  callback, and \<^verbatim>\<open>rspamd_upstream_get_common\<close> (with its mass restore, which starts from an
  empty \<^verbatim>\<open>alive\<close>, where the invariant holds trivially).
\<close>

theorem alive_index_invariant:
  assumes "alive_idx_inv ls"
  shows "alive_idx_inv (rspamd_upstreams_add_upstream nm wgt addrs numeric ls) \<and>
     (p < length (ups ls) \<longrightarrow> alive_idx_inv (rspamd_upstream_set_active p ls)) \<and>
     alive_idx_inv (rspamd_upstream_set_inactive p ls) \<and>
     (\<forall>ls'. rspamd_upstream_fail t p addr_failure ls = Inr ls' \<longrightarrow> alive_idx_inv ls') \<and>
     (\<forall>ls'. p < length (ups ls) \<and> rspamd_upstream_revive_cb p ls = Inr ls' \<longrightarrow>
        alive_idx_inv ls') \<and>
     (\<forall>r ls'. rspamd_upstream_get_common H rnd d k f ls = Inr (r, ls') \<longrightarrow> alive_idx_inv ls')"
proof (intro conjI allI impI)
  show "alive_idx_inv (rspamd_upstreams_add_upstream nm wgt addrs numeric ls)"
    by (rule inv_add_upstream [OF assms])
  show "alive_idx_inv (rspamd_upstream_set_active p ls)" if "p < length (ups ls)"
    by (rule inv_set_active [OF assms that])
  show "alive_idx_inv (rspamd_upstream_set_inactive p ls)"
    by (rule inv_set_inactive [OF assms])
  show "alive_idx_inv ls'" if "rspamd_upstream_fail t p addr_failure ls = Inr ls'" for ls'
    by (rule inv_fail [OF assms that])
  show "alive_idx_inv ls'"
    if "p < length (ups ls) \<and> rspamd_upstream_revive_cb p ls = Inr ls'" for ls'
    using that inv_revive_cb [OF assms] by blast
  show "alive_idx_inv ls'"
    if "rspamd_upstream_get_common H rnd d k f ls = Inr (r, ls')" for r ls'
    by (rule inv_get_common [OF assms that])
qed

text \<open>
  On the examples: the second failure of \<open>10.0.0.1\<close> ejects it; with both upstreams
  ejected, the revive callback re-inserts one and a Get restores both.
\<close>

theorem alive_index_invariant_witness:
  "alive_idx_inv example_failing \<and> alive_idx_inv example_all_ejected \<and>
   (\<exists>ls'. rspamd_upstream_fail 1 0 False example_failing = Inr ls' \<and> alive ls' = [1] \<and>
      alive_idx_inv ls') \<and>
   (\<exists>ls'. rspamd_upstream_revive_cb 0 example_all_ejected = Inr ls' \<and> alive ls' = [0] \<and>
      alive_idx_inv ls') \<and>
   (\<exists>r ls'. rspamd_upstream_get_common (\<lambda>k s. 0) 0 RSPAMD_UPSTREAM_RANDOM None False
        example_all_ejected = Inr (r, ls') \<and> alive ls' = [0, 1] \<and> alive_idx_inv ls') \<and>
   alive_idx_inv (rspamd_upstreams_add_upstream ''10.0.0.3'' 0
     [\<lparr>af = AF_INET, payload = [10, 0, 0, 3], port = 80\<rparr>] True example_failing)"
proof -
  have i1: "alive_idx_inv example_failing"
    by (simp add: alive_idx_inv_def example_failing_def example_all_ejected_def ejected_upstream_def example_defs)
  have i2: "alive_idx_inv example_all_ejected"
    by (simp add: alive_idx_inv_def example_failing_def example_all_ejected_def ejected_upstream_def example_defs)
  obtain l1 where f: "rspamd_upstream_fail 1 0 False example_failing = Inr l1" "alive l1 = [1]"
    by (simp add: engine_defs example_failing_def example_all_ejected_def ejected_upstream_def example_defs)
  obtain l2 where r: "rspamd_upstream_revive_cb 0 example_all_ejected = Inr l2" "alive l2 = [0]"
    by (simp add: engine_defs example_failing_def example_all_ejected_def ejected_upstream_def example_defs)
  obtain x l3 where g: "rspamd_upstream_get_common (\<lambda>k s. 0) 0 RSPAMD_UPSTREAM_RANDOM None False
        example_all_ejected = Inr (x, l3)" "alive l3 = [0, 1]"
    by (simp add: rspamd_upstream_get_common_def get_select_def get_rotation_def
        rspamd_upstream_get_random_def ottery_rand_range_def engine_defs example_failing_def example_all_ejected_def ejected_upstream_def example_defs)
  have p: "0 < length (ups example_all_ejected)" by (simp add: example_failing_def example_all_ejected_def ejected_upstream_def example_defs)
  note a = alive_index_invariant [OF i1, of "''10.0.0.3''" 0
      "[\<lparr>af = AF_INET, payload = [10, 0, 0, 3], port = 80\<rparr>]" True 0 1 False]
  note b = alive_index_invariant [OF i2, of _ _ _ _ 0 _ _ "\<lambda>k s. 0" 0 RSPAMD_UPSTREAM_RANDOM None False]
  from a f have "alive_idx_inv l1" by blast
  moreover from b r p have "alive_idx_inv l2" by blast
  moreover from b g have "alive_idx_inv l3" by blast
  moreover from a have "alive_idx_inv (rspamd_upstreams_add_upstream ''10.0.0.3'' 0
     [\<lparr>af = AF_INET, payload = [10, 0, 0, 3], port = 80\<rparr>] True example_failing)" by blast
  ultimately show ?thesis using i1 i2 f r g by blast
qed

section \<open>Failure accounting and ejection\<close>


lemma calls_of_upd [simp]: "calls_of e (upd p f ls) = calls_of e ls"
  by (simp add: calls_of_def)

lemma errors_update_indices_fold:
  "map errors (ups (fold (\<lambda>i l. upd (alive l ! i) (\<lambda>cur. cur\<lparr>active_idx := int i\<rparr>) l) ks ls)) =
     map errors (ups ls)"
proof (induction ks arbitrary: ls)
  case Nil
  then show ?case by simp
next
  case (Cons k ks)
  have "map errors (ups (upd (alive ls ! k) (\<lambda>cur. cur\<lparr>active_idx := int k\<rparr>) ls)) = map errors (ups ls)"
    by (cases "alive ls ! k < length (ups ls)")
      (simp_all add: upd_def map_update list_update_same_conv list_update_beyond)
  with Cons.IH show ?case by simp
qed

lemma errors_update_indices:
  "p < length (ups ls) \<Longrightarrow> errors (ups (update_indices ls) ! p) = errors (ups ls ! p)"
proof -
  assume p: "p < length (ups ls)"
  have m: "map errors (ups (update_indices ls)) = map errors (ups ls)"
    unfolding update_indices_def by (rule errors_update_indices_fold)
  then have "length (ups (update_indices ls)) = length (ups ls)"
    using length_map by metis
  with p m show ?thesis by (metis nth_map)
qed

lemma length_ups_update_indices [simp]: "length (ups (update_indices ls)) = length (ups ls)"
  using update_indices_view(2) [of ls, THEN arg_cong, of length] by simp

lemma calls_update_indices [simp]: "calls (update_indices ls) = calls ls"
proof -
  have "calls (fold (\<lambda>i l. upd (alive l ! i) (\<lambda>cur. cur\<lparr>active_idx := int i\<rparr>) l) ks ls) = calls ls" for ks
    by (induction ks arbitrary: ls) simp_all
  then show ?thesis by (simp add: update_indices_def)
qed

lemma watchers_update_indices [simp]: "watchers (update_indices ls) = watchers ls"
proof -
  have "watchers (fold (\<lambda>i l. upd (alive l ! i) (\<lambda>cur. cur\<lparr>active_idx := int i\<rparr>) l) ks ls) = watchers ls" for ks
    by (induction ks arbitrary: ls) simp_all
  then show ?thesis by (simp add: update_indices_def)
qed

lemma set_inactive_after_reset_calls:
  assumes "p < length (ups ls)" and "errors (ups ls ! p) = 0"
  shows "calls (rspamd_upstream_set_inactive p ls) =
     calls ls @ map (\<lambda>w. (w, p, RSPAMD_UPSTREAM_WATCH_OFFLINE, 0))
       (filter (\<lambda>w. RSPAMD_UPSTREAM_WATCH_OFFLINE \<in> watchers ls ! w) [0..<length (watchers ls)])"
proof -
  define ls3 where "ls3 = update_indices (upd p (\<lambda>u. u\<lparr>active_idx := - 1\<rparr>)
     (ls\<lparr>alive := g_ptr_array_remove_index (alive ls) (active_idx (ups ls ! p))\<rparr>))"
  define tm where "tm = (\<lambda>c u.
     let u1 = rspamd_upstream_resolve_addrs c u;
         u2 = u1\<lparr>refcount := Suc (refcount u1)\<rparr>;
         w = ev_timer_init revive_cb
     in u2\<lparr>ev := (if event_loop c \<and> configured c then ev_timer_start w else w)\<rparr>)"
  define ls4 where "ls4 = (case up_ctx ls3 p of None \<Rightarrow> ls3 | Some c \<Rightarrow> upd p (tm c) ls3)"
  have eq: "rspamd_upstream_set_inactive p ls =
      notify p RSPAMD_UPSTREAM_WATCH_OFFLINE (errors (ups ls4 ! p)) ls4"
    unfolding rspamd_upstream_set_inactive_def ls3_def ls4_def tm_def Let_def by (rule refl)
  have e3: "errors (ups ls3 ! p) = 0"
    unfolding ls3_def using assms by (simp add: errors_update_indices upd_nth)
  have l3: "length (ups ls3) = length (ups ls)" by (simp add: ls3_def)
  have tm: "\<And>c u. errors (tm c u) = errors u" by (simp add: tm_def Let_def)
  have e4: "errors (ups ls4 ! p) = 0"
    using e3 assms(1) l3 by (simp add: ls4_def upd_nth tm split: option.split)
  have c4: "calls ls4 = calls ls" "watchers ls4 = watchers ls"
    by (simp_all add: ls4_def ls3_def split: option.split)
  show ?thesis by (simp add: eq e4 notify_def c4)
qed


lemma fail_account_eject_offline:
  assumes "p < length (ups ls)" and "errors (ups ls ! p) \<noteq> 0"
    and "last_fail (ups ls ! p) \<le> t"
    and "if last_fail (ups ls ! p) < t
         then error_rate_exceeded (errors (ups ls ! p) + 1) (t - last_fail (ups ls ! p)) (limits ls)
         else True"
    and "1 < length (ups ls)"
  shows "calls_of RSPAMD_UPSTREAM_WATCH_OFFLINE (fail_account c t p ls) =
     calls_of RSPAMD_UPSTREAM_WATCH_OFFLINE ls @
     map (\<lambda>w. (w, p, RSPAMD_UPSTREAM_WATCH_OFFLINE, 0))
       (filter (\<lambda>w. RSPAMD_UPSTREAM_WATCH_OFFLINE \<in> watchers ls ! w) [0..<length (watchers ls)])"
proof -
  let ?ls2 = "notify p RSPAMD_UPSTREAM_WATCH_FAILURE (errors (ups ls ! p) + 1)
      (upd p (\<lambda>u. u\<lparr>errors := errors u + 1\<rparr>) ls)"
  let ?ls3 = "upd p (\<lambda>u. u\<lparr>errors := 0\<rparr>) ?ls2"
  have eq: "fail_account c t p ls = rspamd_upstream_set_inactive p ?ls3"
    using assms by (simp add: fail_account_def Let_def upd_nth split: if_splits)
  have "calls (rspamd_upstream_set_inactive p ?ls3) =
     calls ?ls3 @ map (\<lambda>w. (w, p, RSPAMD_UPSTREAM_WATCH_OFFLINE, 0))
       (filter (\<lambda>w. RSPAMD_UPSTREAM_WATCH_OFFLINE \<in> watchers ?ls3 ! w) [0..<length (watchers ?ls3)])"
    by (rule set_inactive_after_reset_calls) (use assms(1) in \<open>simp_all add: upd_nth\<close>)
  then show ?thesis
    unfolding eq by (simp add: calls_of_def notify_def filter_map o_def)
qed

text \<open>
  C1. The claim: when Fail ejects an upstream, it leaves \<^verbatim>\<open>alive\<close> in the same call and the
  OFFLINE watchers are called with the error count at ejection. The removal holds; the
  count does not: \<^verbatim>\<open>rspamd_upstream_fail\<close> sets \<^verbatim>\<open>up->errors = 0\<close> before it calls
  \<^verbatim>\<open>rspamd_upstream_set_inactive\<close>, which passes \<^verbatim>\<open>upstream->errors\<close> to the watchers
  (\<open>fail_account_eject_offline\<close> above: the count is always 0). Here, with two upstreams
  and the limits 4 errors in 10 seconds, failures at the times 0, 6, 8, 11 and 12 eject
  the first upstream at its fifth error; the watcher sees FAILURE with the counts 1 to 5
  and then OFFLINE with the count 0.
\<close>

theorem fail_eject_offline_count:
  "map_sum id (\<lambda>ls'. (alive ls', calls ls'))
     (fail_repeat [(0, False), (6, False), (8, False), (11, False), (12, False)] 0 example_pair) =
   Inr ([1],
       [(0, 0, RSPAMD_UPSTREAM_WATCH_FAILURE, 1), (0, 0, RSPAMD_UPSTREAM_WATCH_FAILURE, 2),
        (0, 0, RSPAMD_UPSTREAM_WATCH_FAILURE, 3), (0, 0, RSPAMD_UPSTREAM_WATCH_FAILURE, 4),
        (0, 0, RSPAMD_UPSTREAM_WATCH_FAILURE, 5), (0, 0, RSPAMD_UPSTREAM_WATCH_OFFLINE, 0)])"
  by (simp add: engine_defs example_defs)

section \<open>A list of one upstream\<close>















section \<open>Round-robin and master-slave selection with zero weights\<close>

lemma round_robin_scan_max_weight:
  "fst (round_robin_scan uc us ps (mw, sel, mc, msel)) = 0 \<longleftrightarrow>
     mw = 0 \<and> (\<forall>p\<in>set ps. scan_weight uc (us ! p) = 0)"
proof (induction ps arbitrary: mw sel mc msel)
  case Nil
  then show ?case by simp
next
  case (Cons p ps)
  show ?case
  proof (cases "mw < scan_weight uc (us ! p)")
    case True
    then have "scan_weight uc (us ! p) \<noteq> 0" by (auto simp: word_gt_0)
    with True Cons.IH show ?thesis
      by (simp add: Let_def scan_weight_def split: prod.split)
  next
    case False
    then have "mw = 0 \<Longrightarrow> scan_weight uc (us ! p) = 0"
      by (simp add: word_gt_0)
    with False Cons.IH show ?thesis
      by (auto simp: Let_def scan_weight_def split: prod.split)
  qed
qed

lemma round_robin_scan_min:
  "case round_robin_scan uc us ps (mw, sel, mc, msel) of (mw', sel', mc', msel') \<Rightarrow>
     (msel' = None \<longleftrightarrow> msel = None \<and> (\<forall>p\<in>set ps. \<not> checked_score (us ! p) < mc)) \<and>
     (msel' = None \<longrightarrow> mc' = mc) \<and>
     (\<forall>s. msel' = Some s \<longrightarrow>
        (msel = Some s \<and> mc' = mc) \<or> (s \<in> set ps \<and> mc' = checked (us ! s))) \<and>
     ((\<forall>p\<in>set ps. checked (us ! p) \<le> checked_score (us ! p)) \<longrightarrow>
        mc' \<le> mc \<and> (\<forall>p\<in>set ps. mc' \<le> checked_score (us ! p)))"
proof (induction ps arbitrary: mw sel mc msel)
  case Nil
  then show ?case by simp
next
  case (Cons p ps)
  let ?mw1 = "if mw < scan_weight uc (us ! p) then scan_weight uc (us ! p) else mw"
  let ?sel1 = "if mw < scan_weight uc (us ! p) then Some p else sel"
  show ?case
  proof (cases "checked_score (us ! p) < mc")
    case True
    have step: "round_robin_scan uc us (p # ps) (mw, sel, mc, msel) =
        round_robin_scan uc us ps (?mw1, ?sel1, checked (us ! p), Some p)"
      using True by (simp add: Let_def scan_weight_def checked_score_def)
    from Cons.IH [where mw = ?mw1 and sel = ?sel1 and mc = "checked (us ! p)" and msel = "Some p"] True
    show ?thesis unfolding step
      by (auto split: prod.splits)
  next
    case False
    have step: "round_robin_scan uc us (p # ps) (mw, sel, mc, msel) =
        round_robin_scan uc us ps (?mw1, ?sel1, mc, msel)"
      using False by (simp add: Let_def scan_weight_def checked_score_def)
    from Cons.IH [where mw = ?mw1 and sel = ?sel1 and mc = mc and msel = msel] False
    show ?thesis unfolding step
      by (auto split: prod.splits)
  qed
qed








section \<open>Get on a list with nothing alive\<close>

lemma restore_cb_result:
  assumes "p < length (ups ls)" and "1 < refcount (ups ls ! p)"
  shows "rspamd_upstream_restore_cb p ls =
     Inr (ls\<lparr>ups := (ups ls)[p := (ups ls ! p)\<lparr>ev := ev_timer_stop (ev (ups ls ! p)),
                                   active_idx := int (length (alive ls)),
                                   refcount := refcount (ups ls ! p) - 1\<rparr>],
            alive := alive ls @ [p],
            calls := calls ls @ online_calls (watchers ls) p (errors (ups ls ! p))\<rparr>)"
proof -
  have stop: "(if ev_can_stop (ev u) then u\<lparr>ev := ev_timer_stop (ev u)\<rparr> else u) =
      u\<lparr>ev := ev_timer_stop (ev u)\<rparr>" for u :: upstream
    by (simp add: ev_can_stop_def ev_timer_stop_def)
  show ?thesis
    using assms
    by (simp add: rspamd_upstream_restore_cb_def stop Let_def assert_release_def upd_def
        notify_def online_calls_def)
qed

lemma foreach_restore:
  assumes "distinct ps" and "\<forall>p\<in>set ps. p < length (ups ls) \<and> 1 < refcount (ups ls ! p)"
  shows "\<exists>ls'. g_ptr_array_foreach rspamd_upstream_restore_cb ps ls = Inr ls' \<and>
     alive ls' = alive ls @ ps \<and> length (ups ls') = length (ups ls) \<and>
     calls ls' = calls ls @ concat (map (\<lambda>p. online_calls (watchers ls) p (errors (ups ls ! p))) ps) \<and>
     ls'\<lparr>ups := ups ls, alive := alive ls, calls := calls ls\<rparr> = ls \<and>
     (\<forall>q\<in>set ps. ups ls' ! q =
        (ups ls ! q)\<lparr>ev := ev_timer_stop (ev (ups ls ! q)),
                      active_idx := active_idx (ups ls' ! q),
                      refcount := refcount (ups ls ! q) - 1\<rparr>) \<and>
     (\<forall>q. q \<notin> set ps \<longrightarrow> ups ls' ! q = ups ls ! q)"
  using assms
proof (induction ps arbitrary: ls)
  case Nil
  then show ?case by simp
next
  case (Cons p ps)
  let ?u = "(ups ls ! p)\<lparr>ev := ev_timer_stop (ev (ups ls ! p)),
       active_idx := int (length (alive ls)), refcount := refcount (ups ls ! p) - 1\<rparr>"
  let ?ls1 = "ls\<lparr>ups := (ups ls)[p := ?u], alive := alive ls @ [p],
       calls := calls ls @ online_calls (watchers ls) p (errors (ups ls ! p))\<rparr>"
  have p: "p < length (ups ls)" "1 < refcount (ups ls ! p)" "p \<notin> set ps" "distinct ps"
    using Cons.prems by auto
  have step: "rspamd_upstream_restore_cb p ls = Inr ?ls1"
    by (rule restore_cb_result [OF p(1,2)])
  have other: "ups ?ls1 ! q = ups ls ! q" if "q \<noteq> p" for q
    using that by simp
  have pre: "\<forall>q\<in>set ps. q < length (ups ?ls1) \<and> 1 < refcount (ups ?ls1 ! q)"
    using Cons.prems(2) p(3) by (auto simp: nth_list_update)
  from Cons.IH [OF p(4) pre]
  obtain ls' where r: "g_ptr_array_foreach rspamd_upstream_restore_cb ps ?ls1 = Inr ls'"
    "alive ls' = alive ?ls1 @ ps" "length (ups ls') = length (ups ?ls1)"
    "calls ls' = calls ?ls1 @
       concat (map (\<lambda>q. online_calls (watchers ?ls1) q (errors (ups ?ls1 ! q))) ps)"
    "ls'\<lparr>ups := ups ?ls1, alive := alive ?ls1, calls := calls ?ls1\<rparr> = ?ls1"
    "\<forall>q\<in>set ps. ups ls' ! q =
        (ups ?ls1 ! q)\<lparr>ev := ev_timer_stop (ev (ups ?ls1 ! q)),
                      active_idx := active_idx (ups ls' ! q),
                      refcount := refcount (ups ?ls1 ! q) - 1\<rparr>"
    "\<forall>q. q \<notin> set ps \<longrightarrow> ups ls' ! q = ups ?ls1 ! q"
    by blast
  have c: "map (\<lambda>q. online_calls (watchers ?ls1) q (errors (ups ?ls1 ! q))) ps =
      map (\<lambda>q. online_calls (watchers ls) q (errors (ups ls ! q))) ps"
  proof (intro map_cong refl)
    fix x assume "x \<in> set ps"
    then have "x \<noteq> p" using p(3) by auto
    then show "online_calls (watchers ?ls1) x (errors (ups ?ls1 ! x)) =
        online_calls (watchers ls) x (errors (ups ls ! x))"
      by simp
  qed
  have rest: "ls'\<lparr>ups := ups ls, alive := alive ls, calls := calls ls\<rparr> = ls"
  proof -
    have "ls'\<lparr>ups := ups ls, alive := alive ls, calls := calls ls\<rparr> =
        (ls'\<lparr>ups := ups ?ls1, alive := alive ?ls1, calls := calls ?ls1\<rparr>)
          \<lparr>ups := ups ls, alive := alive ls, calls := calls ls\<rparr>"
      by simp
    also have "\<dots> = ?ls1\<lparr>ups := ups ls, alive := alive ls, calls := calls ls\<rparr>"
      by (simp only: r(5))
    also have "\<dots> = ls" by simp
    finally show ?thesis .
  qed
  have up: "ups ls' ! p = ?u" using r(7) p(1,3) by simp
  have "g_ptr_array_foreach rspamd_upstream_restore_cb (p # ps) ls = Inr ls'"
    using step r(1) by simp
  moreover have "alive ls' = alive ls @ p # ps" using r(2) by simp
  moreover have "length (ups ls') = length (ups ls)" using r(3) by simp
  moreover have "calls ls' = calls ls @
      concat (map (\<lambda>p. online_calls (watchers ls) p (errors (ups ls ! p))) (p # ps))"
    unfolding r(4) c by simp
  moreover have "\<forall>q\<in>set (p # ps). ups ls' ! q =
        (ups ls ! q)\<lparr>ev := ev_timer_stop (ev (ups ls ! q)),
                      active_idx := active_idx (ups ls' ! q),
                      refcount := refcount (ups ls ! q) - 1\<rparr>"
  proof
    fix q assume "q \<in> set (p # ps)"
    show "ups ls' ! q =
        (ups ls ! q)\<lparr>ev := ev_timer_stop (ev (ups ls ! q)),
                      active_idx := active_idx (ups ls' ! q),
                      refcount := refcount (ups ls ! q) - 1\<rparr>"
    proof (cases "q = p")
      case True
      then show ?thesis using up by simp
    next
      case False
      with \<open>q \<in> set (p # ps)\<close> have "q \<in> set ps" by simp
      from r(6) [rule_format, OF this] False show ?thesis by simp
    qed
  qed
  moreover have "\<forall>q. q \<notin> set (p # ps) \<longrightarrow> ups ls' ! q = ups ls ! q"
    using r(7) by (auto simp: nth_list_update)
  ultimately show ?case using rest by blast
qed


lemma consistent_hash_loop_upper:
  "b < int n \<Longrightarrow> consistent_hash_loop key n b j < int n"
proof (induction key n b j rule: consistent_hash_loop.induct)
  case (1 key nbuckets b j)
  show ?case
  proof (cases "j < nbuckets")
    case True
    with "1.IH" [OF True refl refl refl] show ?thesis
      by (subst consistent_hash_loop.simps) (simp add: Let_def)
  next
    case False
    with "1.prems" show ?thesis by (subst consistent_hash_loop.simps) simp
  qed
qed

lemma consistent_hash_loop_lower:
  "0 \<le> b \<or> j < n \<Longrightarrow> 0 \<le> consistent_hash_loop key n b j"
proof (induction key n b j rule: consistent_hash_loop.induct)
  case (1 key nbuckets b j)
  show ?case
  proof (cases "j < nbuckets")
    case True
    with "1.IH" [OF True refl refl refl] show ?thesis
      by (subst consistent_hash_loop.simps) (simp add: Let_def)
  next
    case False
    with "1.prems" show ?thesis by (subst consistent_hash_loop.simps) simp
  qed
qed

lemma rspamd_consistent_hash_range:
  assumes "0 < unat nbuckets"
  shows "unat (rspamd_consistent_hash key nbuckets) < unat nbuckets"
proof -
  define r where "r = consistent_hash_loop key (unat nbuckets) (- 1) 0"
  have lo: "0 \<le> r" unfolding r_def by (rule consistent_hash_loop_lower) (use assms in simp)
  have "(0 :: int) \<le> int (unat nbuckets)" by (rule of_nat_0_le_iff)
  then have "(- 1 :: int) < int (unat nbuckets)" by (rule less_le_trans [rotated]) simp
  then have hi: "r < int (unat nbuckets)" unfolding r_def by (rule consistent_hash_loop_upper)
  have "uint nbuckets < 2 ^ 32" using uint_bounded [of nbuckets] by simp
  moreover have "r < uint nbuckets" using hi by simp
  ultimately have "r < 2 ^ 32" by (rule less_trans [rotated])
  with lo have "unat (word_of_int r :: guint) = nat r"
    by (simp add: unat_eq_nat_uint uint_word_of_int take_bit_int_eq_self)
  moreover have "rspamd_consistent_hash key nbuckets = word_of_int r"
    unfolding rspamd_consistent_hash_def r_def by (rule refl)
  moreover have "nat r < unat nbuckets" using hi by (simp only: nat_less_iff [OF lo])
  ultimately show ?thesis by simp
qed

lemma unat_of_nat_len:
  assumes "n < 2 ^ 32"
  shows "unat (word_of_nat n :: guint) = n"
  using assms by (simp add: unat_of_nat)

lemma get_hashed_pick:
  assumes "alive l \<noteq> []" and "length (alive l) < 2 ^ 32"
  shows "\<exists>p. rspamd_upstream_get_hashed H key l = Inr p \<and> p \<in> set (alive l)"
proof -
  have n: "unat (word_of_nat (length (alive l)) :: guint) = length (alive l)"
    by (rule unat_of_nat_len [OF assms(2)])
  then have "0 < unat (word_of_nat (length (alive l)) :: guint)"
    using assms(1) by simp
  from rspamd_consistent_hash_range [OF this, of "H key (hash_seed l)"]
  have "unat (rspamd_consistent_hash (H key (hash_seed l)) (word_of_nat (length (alive l))))
      < length (alive l)"
    by (simp only: n)
  then show ?thesis by (simp add: rspamd_upstream_get_hashed_def Let_def)
qed

lemma get_random_pick:
  assumes "alive l \<noteq> []" and "length (alive l) < 2 ^ 32"
  shows "\<exists>p. rspamd_upstream_get_random rnd l = Inr p \<and> p \<in> set (alive l)"
proof -
  have pos: "0 < length (alive l)" using assms(1) by simp
  have n: "unat (word_of_nat (length (alive l)) :: guint) = length (alive l)"
    by (rule unat_of_nat_len [OF assms(2)])
  then have "(word_of_nat (length (alive l)) :: guint) \<noteq> 0"
    using pos by (metis unat_gt_0)
  then have "unat (word_of_nat (length (alive l)) - 1 :: guint) = length (alive l) - 1"
    by (simp add: unat_minus_one n)
  then have "ottery_rand_range (word_of_nat (length (alive l)) - 1) rnd = rnd mod length (alive l)"
    using pos by (simp add: ottery_rand_range_def)
  then show ?thesis using pos by (simp add: rspamd_upstream_get_random_def Let_def)
qed


lemma map_field_upd_same:
  assumes "\<And>u. g (f u) = g u"
  shows "map g (ups (upd p f ls)) = map g (ups ls)"
proof (cases "p < length (ups ls)")
  case True
  then show ?thesis by (simp add: upd_def map_update assms list_update_same_conv)
next
  case False
  then show ?thesis by (simp add: upd_def list_update_beyond)
qed

lemma reset_checked_frame:
  "alive (reset_checked l) = alive l" "calls (reset_checked l) = calls l"
  "map ev (ups (reset_checked l)) = map ev (ups l)"
proof -
  have "alive (fold (\<lambda>p l. upd p (\<lambda>up. up\<lparr>checked := 0\<rparr>) l) ps l) = alive l \<and>
        calls (fold (\<lambda>p l. upd p (\<lambda>up. up\<lparr>checked := 0\<rparr>) l) ps l) = calls l \<and>
        map ev (ups (fold (\<lambda>p l. upd p (\<lambda>up. up\<lparr>checked := 0\<rparr>) l) ps l)) = map ev (ups l)"
    for ps
    by (induction ps arbitrary: l) (simp_all add: map_field_upd_same)
  then show "alive (reset_checked l) = alive l" "calls (reset_checked l) = calls l"
    "map ev (ups (reset_checked l)) = map ev (ups l)"
    by (simp_all add: reset_checked_def)
qed

lemma round_robin_scan_selected:
  "case round_robin_scan uc us ps (mw, sel, mc, msel) of (mw', sel', mc', msel') \<Rightarrow>
     ((mw \<noteq> 0 \<longrightarrow> sel \<noteq> None) \<longrightarrow> (mw' \<noteq> 0 \<longrightarrow> sel' \<noteq> None)) \<and>
     (\<forall>s. sel' = Some s \<longrightarrow> sel = Some s \<or> s \<in> set ps)"
proof (induction ps arbitrary: mw sel mc msel)
  case Nil
  then show ?case by simp
next
  case (Cons p ps)
  let ?mc1 = "if checked (us ! p) * (errors (us ! p) + 1) < mc then checked (us ! p) else mc"
  let ?msel1 = "if checked (us ! p) * (errors (us ! p) + 1) < mc then Some p else msel"
  show ?case
  proof (cases "mw < scan_weight uc (us ! p)")
    case True
    have step: "round_robin_scan uc us (p # ps) (mw, sel, mc, msel) =
        round_robin_scan uc us ps (scan_weight uc (us ! p), Some p, ?mc1, ?msel1)"
      using True by (simp add: Let_def scan_weight_def)
    from Cons.IH [where mw = "scan_weight uc (us ! p)" and sel = "Some p" and mc = ?mc1
        and msel = ?msel1]
    show ?thesis unfolding step by (auto split: prod.splits)
  next
    case False
    have step: "round_robin_scan uc us (p # ps) (mw, sel, mc, msel) =
        round_robin_scan uc us ps (mw, sel, ?mc1, ?msel1)"
      using False by (simp add: Let_def scan_weight_def)
    from Cons.IH [where mw = mw and sel = sel and mc = ?mc1 and msel = ?msel1]
    show ?thesis unfolding step by (auto split: prod.splits)
  qed
qed

lemma get_round_robin_result:
  "\<exists>sel l'. rspamd_upstream_get_round_robin uc l = (sel, l') \<and>
     alive l' = alive l \<and> calls l' = calls l \<and> map ev (ups l') = map ev (ups l) \<and>
     (sel = None \<longleftrightarrow>
        (\<forall>p\<in>set (alive l). scan_weight uc (ups l ! p) = 0 \<and>
                             \<not> checked_score (ups l ! p) < G_MAXUINT)) \<and>
     (\<forall>s. sel = Some s \<longrightarrow> s \<in> set (alive l))"
proof -
  obtain mw sel mc msel where
    scan: "round_robin_scan uc (ups l) (alive l) (0, None, G_MAXUINT, None) = (mw, sel, mc, msel)"
    by (cases "round_robin_scan uc (ups l) (alive l) (0, None, G_MAXUINT, None)") auto
  note w = round_robin_scan_max_weight [where uc = uc and us = "ups l" and ps = "alive l"
      and mw = 0 and sel = None and mc = G_MAXUINT and msel = None, unfolded scan, simplified]
  note m = round_robin_scan_min [where uc = uc and us = "ups l" and ps = "alive l"
      and mw = 0 and sel = None and mc = G_MAXUINT and msel = None, unfolded scan, simplified]
  note s = round_robin_scan_selected [where uc = uc and us = "ups l" and ps = "alive l"
      and mw = 0 and sel = None and mc = G_MAXUINT and msel = None, unfolded scan, simplified]
  define sel1 where "sel1 = (if mw = 0 then msel else sel)"
  define ls1 where "ls1 = (if mw = 0 then (if mc > G_MAXUINT div 2 then reset_checked l else l)
      else l)"
  define ls2 where "ls2 = (case sel1 of
      Some p \<Rightarrow> if uc then
          upd p (\<lambda>u. if cur_weight u > 0 then u\<lparr>cur_weight := cur_weight u - 1\<rparr>
                      else u\<lparr>cur_weight := weight u\<rparr>) ls1
        else ls1
    | None \<Rightarrow> ls1)"
  have res: "rspamd_upstream_get_round_robin uc l = (sel1, ls2)"
    unfolding rspamd_upstream_get_round_robin_def scan ls2_def ls1_def sel1_def
    by (simp add: Let_def)
  have f1: "alive ls1 = alive l" "calls ls1 = calls l" "map ev (ups ls1) = map ev (ups l)"
    by (simp_all add: ls1_def reset_checked_frame)
  have cw: "ev (if cur_weight u > 0 then u\<lparr>cur_weight := cur_weight u - 1\<rparr>
                      else u\<lparr>cur_weight := weight u\<rparr>) = ev u" for u :: upstream
    by simp
  have f2: "alive ls2 = alive l" "calls ls2 = calls l" "map ev (ups ls2) = map ev (ups l)"
    using f1 by (simp_all add: ls2_def map_field_upd_same [where g = ev, OF cw] split: option.split)
  have n: "sel1 = None \<longleftrightarrow>
        (\<forall>p\<in>set (alive l). scan_weight uc (ups l ! p) = 0 \<and>
                             \<not> checked_score (ups l ! p) < G_MAXUINT)"
  proof (cases "mw = 0")
    case True
    with w m show ?thesis by (auto simp: sel1_def)
  next
    case False
    with w s show ?thesis by (auto simp: sel1_def)
  qed
  have a: "\<forall>x. sel1 = Some x \<longrightarrow> x \<in> set (alive l)"
    using m s by (auto simp: sel1_def split: if_splits)
  show ?thesis using res f2 n a by blast
qed

lemma get_select_frame:
  assumes "get_select H rnd k rot l = Inr (r, l')"
  shows "alive l' = alive l \<and> calls l' = calls l \<and> map ev (ups l') = map ev (ups l)"
proof (cases rot)
  case RSPAMD_UPSTREAM_ROUND_ROBIN
  with assms get_round_robin_result [of True l] show ?thesis by (auto simp: get_select_def)
next
  case RSPAMD_UPSTREAM_MASTER_SLAVE
  with assms get_round_robin_result [of False l] show ?thesis by (auto simp: get_select_def)
next
  case RSPAMD_UPSTREAM_SEQUENTIAL
  with assms show ?thesis by (auto simp: get_select_def split: if_splits)
qed (use assms in \<open>auto simp: get_select_def split: sum.splits\<close>)

lemma get_common_via_select:
  assumes "(if length (alive ls) = 0
            then g_ptr_array_foreach rspamd_upstream_restore_cb [0..<length (ups ls)] ls
            else Inr ls) = Inr ls1"
    and "rot_alg ls1 = rot_alg ls"
  shows "rspamd_upstream_get_common H rnd d k f ls =
     (case get_select H rnd k (get_rotation ls d k f) ls1 of
        Inl e \<Rightarrow> Inl e
      | Inr (None, l') \<Rightarrow> Inr (None, l')
      | Inr (Some up, l') \<Rightarrow> Inr (Some up, upd up (\<lambda>u. u\<lparr>checked := checked u + 1\<rparr>) l'))"
  unfolding rspamd_upstream_get_common_def assms(1)
  by (simp add: get_rotation_cong [OF assms(2)])

lemma get_common_frame:
  assumes "(if length (alive ls) = 0
            then g_ptr_array_foreach rspamd_upstream_restore_cb [0..<length (ups ls)] ls
            else Inr ls) = Inr ls1"
    and "rot_alg ls1 = rot_alg ls"
    and "rspamd_upstream_get_common H rnd d k f ls = Inr (r, l')"
  shows "alive l' = alive ls1 \<and> calls l' = calls ls1 \<and> map ev (ups l') = map ev (ups ls1)"
proof -
  from assms(3) obtain r1 l1 where
    sel: "get_select H rnd k (get_rotation ls d k f) ls1 = Inr (r1, l1)"
    and fin: "(case r1 of None \<Rightarrow> Inr (None, l1)
        | Some up \<Rightarrow> Inr (Some up, upd up (\<lambda>u. u\<lparr>checked := checked u + 1\<rparr>) l1)) =
        (Inr (r, l') :: fault + (nat option \<times> upstream_list))"
    unfolding get_common_via_select [OF assms(1,2)]
    by (auto split: sum.splits option.splits)
  from get_select_frame [OF sel] fin show ?thesis
    by (auto simp: map_field_upd_same split: option.splits)
qed

text \<open>
  C2, as amended. When \<^verbatim>\<open>alive\<close> is empty at entry (and every upstream is held by a second
  reference, as the ejected ones are, so that the assertion of the restore callback
  passes), a Get that returns has put every upstream of \<^verbatim>\<open>ups\<close> back into \<^verbatim>\<open>alive\<close>, in
  order, has left no timer armed and has called each ONLINE watcher once per upstream. It
  returns an alive upstream under Random and Hashed rotation when \<^verbatim>\<open>ups\<close> is not empty;
  under Sequential rotation exactly when \<^verbatim>\<open>cur_elt\<close> is below the number of upstreams, and
  NULL otherwise; under RoundRobin and MasterSlave exactly when some upstream has a nonzero
  scanned weight or a product \<^verbatim>\<open>checked * (errors + 1)\<close> below \<^verbatim>\<open>G_MAXUINT\<close>, and NULL
  otherwise (so NULL when \<^verbatim>\<open>ups\<close> is empty).
\<close>

theorem get_restores_all:
  assumes "alive ls = []" and "\<forall>u\<in>set (ups ls). 1 < refcount u" and "length (ups ls) < 2 ^ 32"
  shows "(\<forall>r l'. rspamd_upstream_get_common H rnd d k f ls = Inr (r, l') \<longrightarrow>
            alive l' = [0..<length (ups ls)] \<and>
            (\<forall>p<length (ups ls). \<not> active (ev (ups l' ! p))) \<and>
            calls l' = calls ls @
              concat (map (\<lambda>p. online_calls (watchers ls) p (errors (ups ls ! p)))
                        [0..<length (ups ls)])) \<and>
         (get_rotation ls d k f \<in>
            {RSPAMD_UPSTREAM_RANDOM, RSPAMD_UPSTREAM_UNDEF, RSPAMD_UPSTREAM_HASHED} \<and>
          ups ls \<noteq> [] \<longrightarrow>
            is_pick (rspamd_upstream_get_common H rnd d k f ls)) \<and>
         (get_rotation ls d k f = RSPAMD_UPSTREAM_SEQUENTIAL \<longrightarrow>
            (if cur_elt ls < length (ups ls)
             then is_pick (rspamd_upstream_get_common H rnd d k f ls)
             else is_none (rspamd_upstream_get_common H rnd d k f ls))) \<and>
         (get_rotation ls d k f = RSPAMD_UPSTREAM_ROUND_ROBIN \<longrightarrow>
            (if \<exists>u\<in>set (ups ls). scan_weight True u \<noteq> 0 \<or> checked_score u < G_MAXUINT
             then is_pick (rspamd_upstream_get_common H rnd d k f ls)
             else is_none (rspamd_upstream_get_common H rnd d k f ls))) \<and>
         (get_rotation ls d k f = RSPAMD_UPSTREAM_MASTER_SLAVE \<longrightarrow>
            (if \<exists>u\<in>set (ups ls). scan_weight False u \<noteq> 0 \<or> checked_score u < G_MAXUINT
             then is_pick (rspamd_upstream_get_common H rnd d k f ls)
             else is_none (rspamd_upstream_get_common H rnd d k f ls)))"
proof -
  let ?n = "length (ups ls)"
  let ?G = "rspamd_upstream_get_common H rnd d k f ls"
  have pre: "\<forall>p\<in>set [0..<?n]. p < length (ups ls) \<and> 1 < refcount (ups ls ! p)"
    using assms(2) by simp
  from foreach_restore [OF distinct_upt pre]
  obtain ls1 where r: "g_ptr_array_foreach rspamd_upstream_restore_cb [0..<?n] ls = Inr ls1"
    and a1: "alive ls1 = [0..<?n]" and l1: "length (ups ls1) = ?n"
    and c1: "calls ls1 = calls ls @
        concat (map (\<lambda>p. online_calls (watchers ls) p (errors (ups ls ! p))) [0..<?n])"
    and rest: "ls1\<lparr>ups := ups ls, alive := alive ls, calls := calls ls\<rparr> = ls"
    and u1: "\<forall>q\<in>set [0..<?n]. ups ls1 ! q =
        (ups ls ! q)\<lparr>ev := ev_timer_stop (ev (ups ls ! q)),
                      active_idx := active_idx (ups ls1 ! q),
                      refcount := refcount (ups ls ! q) - 1\<rparr>"
    using assms(1) by auto
  have rot: "rot_alg ls1 = rot_alg ls" using arg_cong [OF rest, of rot_alg] by simp
  have cur: "cur_elt ls1 = cur_elt ls" using arg_cong [OF rest, of cur_elt] by simp
  have m: "(if length (alive ls) = 0
            then g_ptr_array_foreach rspamd_upstream_restore_cb [0..<length (ups ls)] ls
            else Inr ls) = Inr ls1"
    using assms(1) r by simp
  note G = get_common_via_select [OF m rot, of H rnd d k f]
  have fld: "\<not> active (ev (ups ls1 ! q))" "scan_weight uc (ups ls1 ! q) = scan_weight uc (ups ls ! q)"
    "checked_score (ups ls1 ! q) = checked_score (ups ls ! q)" if "q < ?n" for q uc
  proof -
    from u1 that have e: "ups ls1 ! q =
        (ups ls ! q)\<lparr>ev := ev_timer_stop (ev (ups ls ! q)),
                      active_idx := active_idx (ups ls1 ! q),
                      refcount := refcount (ups ls ! q) - 1\<rparr>"
      by simp
    show "\<not> active (ev (ups ls1 ! q))"
      by (subst e) (simp add: ev_timer_stop_def)
    show "scan_weight uc (ups ls1 ! q) = scan_weight uc (ups ls ! q)"
      by (subst e) (simp add: scan_weight_def)
    show "checked_score (ups ls1 ! q) = checked_score (ups ls ! q)"
      by (subst e) (simp add: checked_score_def)
  qed
  have frame: "alive l' = [0..<?n] \<and> (\<forall>p<?n. \<not> active (ev (ups l' ! p))) \<and>
      calls l' = calls ls @
        concat (map (\<lambda>p. online_calls (watchers ls) p (errors (ups ls ! p))) [0..<?n])"
    if "?G = Inr (r, l')" for r l'
  proof -
    from get_common_frame [OF m rot that]
    have f: "alive l' = alive ls1" "calls l' = calls ls1" "map ev (ups l') = map ev (ups ls1)"
      by simp_all
    from f(3) have len: "length (ups l') = ?n" using l1 by (metis length_map)
    have "ev (ups l' ! p) = ev (ups ls1 ! p)" if "p < ?n" for p
      using f(3) that len l1 by (metis nth_map)
    with fld(1) f a1 c1 show ?thesis by simp
  qed
  have pick: "is_pick ?G"
    if "get_select H rnd k (get_rotation ls d k f) ls1 = Inr (Some p, l1)"
      "p \<in> set (alive l1)" for p l1
    unfolding G using that by (simp add: is_pick_def)
  have none: "is_none ?G"
    if "get_select H rnd k (get_rotation ls d k f) ls1 = Inr (None, l1)" for l1
    unfolding G using that by (simp add: is_none_def)
  have ne: "alive ls1 \<noteq> []" if "ups ls \<noteq> []" using that a1 by simp
  have lt: "length (alive ls1) < 2 ^ 32" using a1 assms(3) by simp
  have random: "is_pick ?G"
    if "get_rotation ls d k f \<in>
            {RSPAMD_UPSTREAM_RANDOM, RSPAMD_UPSTREAM_UNDEF, RSPAMD_UPSTREAM_HASHED} \<and> ups ls \<noteq> []"
  proof -
    from that have n: "alive ls1 \<noteq> []" using ne by simp
    from get_random_pick [OF n lt, of rnd]
    obtain p where p: "rspamd_upstream_get_random rnd ls1 = Inr p" "p \<in> set (alive ls1)"
      by blast
    from get_hashed_pick [OF n lt, of H "case k of None \<Rightarrow> [] | Some k \<Rightarrow> k"]
    obtain q where q: "rspamd_upstream_get_hashed H (case k of None \<Rightarrow> [] | Some k \<Rightarrow> k) ls1 = Inr q"
        "q \<in> set (alive ls1)"
      by blast
    from that consider "get_rotation ls d k f = RSPAMD_UPSTREAM_RANDOM"
      | "get_rotation ls d k f = RSPAMD_UPSTREAM_UNDEF"
      | "get_rotation ls d k f = RSPAMD_UPSTREAM_HASHED"
      by auto
    then show ?thesis
    proof cases
      case 1
      show ?thesis by (rule pick [of p ls1]) (simp_all add: 1 get_select_def p)
    next
      case 2
      show ?thesis by (rule pick [of p ls1]) (simp_all add: 2 get_select_def p)
    next
      case 3
      show ?thesis by (rule pick [of q ls1]) (simp_all add: 3 get_select_def q)
    qed
  qed
  have seq: "if cur_elt ls < ?n then is_pick ?G else is_none ?G"
    if "get_rotation ls d k f = RSPAMD_UPSTREAM_SEQUENTIAL"
  proof (cases "cur_elt ls < ?n")
    case True
    have "is_pick ?G"
      by (rule pick [of "alive ls1 ! cur_elt ls1" "ls1\<lparr>cur_elt := cur_elt ls1 + 1\<rparr>"])
        (use True in \<open>simp_all add: that get_select_def cur a1\<close>)
    with True show ?thesis by simp
  next
    case False
    have "is_none ?G"
      by (rule none [of "ls1\<lparr>cur_elt := 0\<rparr>"])
        (use False in \<open>simp add: that get_select_def cur a1\<close>)
    with False show ?thesis by simp
  qed
  have rr: "if \<exists>u\<in>set (ups ls). scan_weight uc u \<noteq> 0 \<or> checked_score u < G_MAXUINT
      then is_pick ?G else is_none ?G"
    if "get_select H rnd k (get_rotation ls d k f) ls1 =
        Inr (rspamd_upstream_get_round_robin uc ls1)" for uc
  proof -
    from get_round_robin_result [of uc ls1]
    obtain sel l' where res: "rspamd_upstream_get_round_robin uc ls1 = (sel, l')"
      "alive l' = alive ls1"
      "sel = None \<longleftrightarrow> (\<forall>p\<in>set (alive ls1). scan_weight uc (ups ls1 ! p) = 0 \<and>
                             \<not> checked_score (ups ls1 ! p) < G_MAXUINT)"
      "\<forall>s. sel = Some s \<longrightarrow> s \<in> set (alive ls1)"
      by blast
    have iff: "(\<exists>u\<in>set (ups ls). scan_weight uc u \<noteq> 0 \<or> checked_score u < G_MAXUINT) \<longleftrightarrow>
        sel \<noteq> None"
    proof -
      have "sel = None \<longleftrightarrow>
          (\<forall>p<?n. scan_weight uc (ups ls ! p) = 0 \<and> \<not> checked_score (ups ls ! p) < G_MAXUINT)"
        unfolding res(3) a1 by (auto simp: fld)
      also have "\<dots> \<longleftrightarrow>
          (\<forall>u\<in>set (ups ls). scan_weight uc u = 0 \<and> \<not> checked_score u < G_MAXUINT)"
        by (simp add: all_set_conv_all_nth)
      finally show ?thesis by blast
    qed
    show ?thesis
    proof (cases sel)
      case None
      have "is_none ?G" by (rule none [of l']) (simp add: that res(1) None)
      with iff None show ?thesis by simp
    next
      case (Some s)
      have "is_pick ?G"
        by (rule pick [of s l']) (use res(2,4) Some in \<open>simp_all add: that res(1)\<close>)
      with iff Some show ?thesis by simp
    qed
  qed
  have rr1: "if \<exists>u\<in>set (ups ls). scan_weight True u \<noteq> 0 \<or> checked_score u < G_MAXUINT
      then is_pick ?G else is_none ?G"
    if "get_rotation ls d k f = RSPAMD_UPSTREAM_ROUND_ROBIN"
    by (rule rr) (simp add: that get_select_def)
  have rr2: "if \<exists>u\<in>set (ups ls). scan_weight False u \<noteq> 0 \<or> checked_score u < G_MAXUINT
      then is_pick ?G else is_none ?G"
    if "get_rotation ls d k f = RSPAMD_UPSTREAM_MASTER_SLAVE"
    by (rule rr) (simp add: that get_select_def)
  show ?thesis using frame random seq rr1 rr2 by blast
qed

text \<open>
  C2 as stated fails under Sequential rotation: with both upstreams ejected and the
  cursor at 2, the Get restores both and returns NULL, resetting the cursor.
\<close>

theorem get_restores_all_counterexample:
  "alive example_sequential_end = [] \<and> length (ups example_sequential_end) = 2 \<and>
   map_sum id (map_prod id (\<lambda>l. (alive l, cur_elt l)))
     (rspamd_upstream_get (\<lambda>k s. 0) 0 RSPAMD_UPSTREAM_UNDEF None example_sequential_end) =
   Inr (None, [0, 1], 0)"
  by (simp add: select_defs engine_defs example_sequential_end_def example_all_ejected_def ejected_upstream_def example_defs)

text \<open>
  On an empty list the Random rotation does not return NULL: the index
  \<^verbatim>\<open>ottery_rand_range (alive->len - 1)\<close> is read from an empty array.
\<close>

lemma get_random_empty_list:
  "rspamd_upstream_get (\<lambda>k s. 0) rnd RSPAMD_UPSTREAM_RANDOM None empty_list = Inl OutOfBounds"
  by (simp add: select_defs empty_list_def)

text \<open>
  Both upstreams ejected, Random rotation: both are restored, their revive timers are
  stopped, the watcher sees ONLINE twice and an upstream is returned.
\<close>

theorem get_restores_all_witness:
  "alive example_all_ejected = [] \<and> map refcount (ups example_all_ejected) = [2, 2] \<and>
   get_rotation example_all_ejected RSPAMD_UPSTREAM_RANDOM None False = RSPAMD_UPSTREAM_RANDOM \<and>
   is_pick (rspamd_upstream_get (\<lambda>k s. 0) 0 RSPAMD_UPSTREAM_RANDOM None example_all_ejected) \<and>
   map_sum id (map_prod id (\<lambda>l. (alive l, map (\<lambda>u. active (ev u)) (ups l), calls l)))
     (rspamd_upstream_get (\<lambda>k s. 0) 0 RSPAMD_UPSTREAM_RANDOM None example_all_ejected) =
   Inr (Some 0, [0, 1], [False, False],
        [(0, 0, RSPAMD_UPSTREAM_WATCH_ONLINE, 0), (0, 1, RSPAMD_UPSTREAM_WATCH_ONLINE, 0)])"
proof -
  have a: "alive example_all_ejected = []" by (simp add: example_all_ejected_def ejected_upstream_def example_defs)
  have rc: "map refcount (ups example_all_ejected) = [2, 2]" by (simp add: example_all_ejected_def ejected_upstream_def example_defs)
  have b: "\<forall>u\<in>set (ups example_all_ejected). 1 < refcount u" by (simp add: example_all_ejected_def ejected_upstream_def example_defs)
  have c: "length (ups example_all_ejected) < 2 ^ 32" by (simp add: example_all_ejected_def ejected_upstream_def example_defs)
  have ne: "ups example_all_ejected \<noteq> []" by (simp add: example_all_ejected_def ejected_upstream_def example_defs)
  have rot: "get_rotation example_all_ejected RSPAMD_UPSTREAM_RANDOM None False =
      RSPAMD_UPSTREAM_RANDOM"
    by (simp add: get_rotation_def example_all_ejected_def ejected_upstream_def example_defs)
  note th = get_restores_all [OF a b c, of "\<lambda>k s. 0" 0 RSPAMD_UPSTREAM_RANDOM None False]
  from th rot ne
  have p: "is_pick (rspamd_upstream_get (\<lambda>k s. 0) 0 RSPAMD_UPSTREAM_RANDOM None example_all_ejected)"
    by (simp add: rspamd_upstream_get_def)
  have e: "map_sum id (map_prod id (\<lambda>l. (alive l, map (\<lambda>u. active (ev u)) (ups l), calls l)))
     (rspamd_upstream_get (\<lambda>k s. 0) 0 RSPAMD_UPSTREAM_RANDOM None example_all_ejected) =
     Inr (Some 0, [0, 1], [False, False],
        [(0, 0, RSPAMD_UPSTREAM_WATCH_ONLINE, 0), (0, 1, RSPAMD_UPSTREAM_WATCH_ONLINE, 0)])"
    by (simp add: select_defs engine_defs example_all_ejected_def ejected_upstream_def example_defs)
  from a rc rot p e show ?thesis by simp
qed

end
